theory Spec2Isabelle
  imports Complex_Main "HOL-Library.Multiset" "HOL-Library.Word"
begin

section \<open>Data model\<close>

text \<open>
  The request priority, an upper-cased string out of three in the controller, and the
  batch status, one of four string literals assigned by the service.
\<close>

datatype priority = HIGH | MEDIUM | LOW

datatype status = yet_to_start | triggered | completed | failed

text \<open>
  A JavaScript string is a sequence of UTF-16 code units, unsigned 16-bit numbers;
  \<open>utf16\<close> gives the units of an ASCII literal. The identifiers made by \<open>uuidv4\<close> and
  the keys of \<open>ingestionStore\<close> are only compared for equality and stay of type
  \<open>string\<close>.
\<close>

type_synonym js_string = "16 word list"

definition utf16 :: "string \<Rightarrow> js_string" where
  "utf16 str = map of_char str"

text \<open>
  A value of a request body as \<open>express.json()\<close> hands it over, the result of
  \<open>JSON.parse\<close>: \<open>null\<close>, a boolean, a number, a string, an array, or a plain object
  whose own properties are again such values. A number that is no finite double
  (\<open>1e999\<close> parses to \<open>Infinity\<close>) behaves in this program as any other number
  different from zero and has no constructor of its own.
\<close>

datatype json =
    JNull
  | JBool bool
  | JNum rat
  | JStr js_string
  | JArr "json list"
  | JObj "(js_string \<times> json) list"

text \<open>The array of integers \<open>[1, 2, 3]\<close> that the README shows for \<open>ids\<close>.\<close>

definition numbers :: "int list \<Rightarrow> json list" where
  "numbers xs = map (\<lambda>i. JNum (of_int i)) xs"

text \<open>
  A batch object \<open>{ batch_id, ids, status }\<close> as \<open>processIngestionRequest\<close> builds it.
  The status response of the controller copies the same three fields. The elements of
  \<open>ids\<close> are whatever the array of the request body held: the controller checks that
  \<open>ids\<close> is a non-empty array and nothing about its elements.
\<close>

record batch =
  batch_id :: string
  ids :: "json list"
  status :: status

text \<open>A queue entry \<open>{ ingestionId, batchId, priority, createdAt }\<close>; \<open>createdAt\<close> is
  the millisecond time value of the \<open>Date\<close>.\<close>

record job =
  ingestionId :: string
  batchId :: string
  priority :: priority
  createdAt :: int

text \<open>
  A record of \<open>ingestionStore\<close>. Its \<open>batches\<close> array holds references to batch
  objects, which \<open>processQueue\<close> and \<open>processSingleBatch\<close> mutate in place: the model
  keeps the objects in a heap of their own (a list, the address is the position) and the
  record holds addresses.
\<close>

record request =
  req_status :: status
  batches :: "nat list"
  req_priority :: priority
  req_createdAt :: int
  original_ids :: "json list"

section \<open>The priority queue (utils/priorityQueue.js)\<close>

subsection \<open>JavaScript number arithmetic\<close>

text \<open>
  \<open>_getJobPriorityValue\<close> computes with JavaScript numbers, IEEE 754 binary64 values.
  A finite binary64 value is a rational, and \<open>+\<close> and \<open>/\<close> return the exact result
  rounded to the nearest value with a 53 bit significand, ties to even. \<open>binary64\<close> is
  that rounding. Overflow and gradual underflow are left out: a time value is at most
  8.64e15 in magnitude, so a key is below 90 and a nonzero quotient is at least 1e-14.
\<close>

function floorLog2 :: "rat \<Rightarrow> int" where
  "floorLog2 x =
     (if x \<le> 0 then 0
      else if x < 1 then floorLog2 (2 * x) - 1
      else if 2 \<le> x then floorLog2 (x / 2) + 1
      else 0)"
  by pat_completeness auto

termination floorLog2
proof (relation "measure (\<lambda>x. if x < 1 then nat \<lceil>1 / x\<rceil> else nat \<lfloor>x\<rfloor>)")
  show "wf (measure (\<lambda>x::rat. if x < 1 then nat \<lceil>1 / x\<rceil> else nat \<lfloor>x\<rfloor>))"
    by simp
next
  fix x :: rat
  assume a: "\<not> x \<le> 0" "x < 1"
  have inv_gt: "1 / x > 1" using a by simp
  show "(2 * x, x) \<in> measure (\<lambda>x. if x < 1 then nat \<lceil>1 / x\<rceil> else nat \<lfloor>x\<rfloor>)"
  proof (cases "2 * x < 1")
    case True
    then have "1 / x > 2" using a by (simp add: field_simps)
    then have "1 / (2 * x) \<le> 1 / x - 1" using a by (simp add: field_simps)
    then have "\<lceil>1 / (2 * x)\<rceil> \<le> \<lceil>1 / x - 1\<rceil>" by (rule ceiling_mono)
    moreover have "\<lceil>1 / x\<rceil> > 0" using a by simp
    ultimately show ?thesis using True a by simp
  next
    case False
    then have "2 * x < 2" "1 \<le> 2 * x" using a by simp_all
    then have "\<lfloor>2 * x\<rfloor> = 1" by linarith
    moreover have "\<lceil>1 / x\<rceil> > 1" using inv_gt by linarith
    ultimately show ?thesis using False a by simp
  qed
next
  fix x :: rat
  assume a: "\<not> x \<le> 0" "\<not> x < 1" "2 \<le> x"
  then have "x / 2 \<le> x - 1" by simp
  then have "\<lfloor>x / 2\<rfloor> \<le> \<lfloor>x - 1\<rfloor>" by (rule floor_mono)
  moreover have "\<lfloor>x\<rfloor> \<ge> 2" using a by linarith
  ultimately show "(x / 2, x) \<in> measure (\<lambda>x. if x < 1 then nat \<lceil>1 / x\<rceil> else nat \<lfloor>x\<rfloor>)"
    using a by simp
qed

definition pow2 :: "int \<Rightarrow> rat" where
  "pow2 e = (if 0 \<le> e then 2 ^ nat e else 1 / 2 ^ nat (- e))"

definition roundTiesToEven :: "rat \<Rightarrow> int" where
  "roundTiesToEven r =
     (let f = \<lfloor>r\<rfloor>; d = r - of_int f
      in if d < 1 / 2 then f else if 1 / 2 < d then f + 1
         else if even f then f else f + 1)"

definition binary64 :: "rat \<Rightarrow> rat" where
  "binary64 x =
     (if x = 0 then 0
      else let u = pow2 (floorLog2 \<bar>x\<bar> - 52)
           in sgn x * (of_int (roundTiesToEven (\<bar>x\<bar> / u)) * u))"

subsection \<open>Keys\<close>

fun priorityMap :: "priority \<Rightarrow> int" where
  "priorityMap HIGH = 1"
| "priorityMap MEDIUM = 2"
| "priorityMap LOW = 3"

text \<open>\<open>this.priorityMap[job.priority] + (job.createdAt.getTime() / 1e14)\<close>\<close>

definition getJobPriorityValue :: "job \<Rightarrow> rat" where
  "getJobPriorityValue j =
     binary64 (of_int (priorityMap (priority j)) + binary64 (of_int (createdAt j) / 10 ^ 14))"

subsection \<open>Heap operations\<close>

text \<open>The loop of \<open>_siftUp\<close>, from the node index it has reached.\<close>

function siftUpFrom :: "job list \<Rightarrow> nat \<Rightarrow> job list" where
  "siftUpFrom heap nodeIdx =
     (if 0 < nodeIdx then
        (if getJobPriorityValue (heap ! nodeIdx)
              < getJobPriorityValue (heap ! ((nodeIdx - 1) div 2))
         then siftUpFrom (heap[nodeIdx := heap ! ((nodeIdx - 1) div 2),
                               (nodeIdx - 1) div 2 := heap ! nodeIdx])
                ((nodeIdx - 1) div 2)
         else heap)
      else heap)"
  by pat_completeness auto

termination siftUpFrom
  by (relation "measure (\<lambda>(heap, nodeIdx). nodeIdx)") auto

definition siftUp :: "job list \<Rightarrow> job list" where
  "siftUp heap = siftUpFrom heap (length heap - 1)"

definition enqueue :: "job list \<Rightarrow> job \<Rightarrow> job list" where
  "enqueue heap j = siftUp (heap @ [j])"

text \<open>The child \<open>_siftDown\<close> compares the node with: \<open>null\<close>, then the left child
  when it exists, then the right child when it exists and has the smaller key.\<close>

definition smallestChildIdx :: "job list \<Rightarrow> nat \<Rightarrow> nat option" where
  "smallestChildIdx heap nodeIdx =
     (let leftChildIdx = 2 * nodeIdx + 1;
          rightChildIdx = 2 * nodeIdx + 2;
          smallest = (if leftChildIdx < length heap then Some leftChildIdx else None)
      in if rightChildIdx < length heap
            \<and> getJobPriorityValue (heap ! rightChildIdx)
                < getJobPriorityValue (heap ! leftChildIdx)
         then Some rightChildIdx
         else smallest)"

lemma smallestChildIdx_Some:
  "smallestChildIdx heap n = Some c \<Longrightarrow> n < c \<and> c < length heap"
  by (auto simp: smallestChildIdx_def Let_def split: if_splits)

function siftDownFrom :: "job list \<Rightarrow> nat \<Rightarrow> job list" where
  "siftDownFrom heap nodeIdx =
     (case smallestChildIdx heap nodeIdx of
        None \<Rightarrow> heap
      | Some c \<Rightarrow>
          if getJobPriorityValue (heap ! nodeIdx) \<le> getJobPriorityValue (heap ! c)
          then heap
          else siftDownFrom (heap[nodeIdx := heap ! c, c := heap ! nodeIdx]) c)"
  by pat_completeness auto

termination siftDownFrom
  by (relation "measure (\<lambda>(heap, nodeIdx). length heap - nodeIdx)")
     (auto dest!: smallestChildIdx_Some)

declare floorLog2.simps [simp del]
declare siftUpFrom.simps [simp del]
declare siftDownFrom.simps [simp del]

definition siftDown :: "job list \<Rightarrow> job list" where
  "siftDown heap = siftDownFrom heap 0"

text \<open>\<open>dequeue\<close> returns \<open>null\<close> on the empty queue, else the root; the last element
  takes the root's place and sinks.\<close>

definition dequeue :: "job list \<Rightarrow> job option \<times> job list" where
  "dequeue heap =
     (if heap = [] then (None, heap)
      else if butlast heap \<noteq> []
           then (Some (heap ! 0), siftDown ((butlast heap)[0 := last heap]))
           else (Some (heap ! 0), butlast heap))"

definition peek :: "job list \<Rightarrow> job option" where
  "peek heap = (if heap = [] then None else Some (heap ! 0))"

lemma length_siftDownFrom: "length (siftDownFrom heap n) = length heap"
proof (induction heap n rule: siftDownFrom.induct)
  case (1 heap nodeIdx)
  show ?case
  proof (cases "smallestChildIdx heap nodeIdx")
    case None
    then show ?thesis by (subst siftDownFrom.simps) simp
  next
    case (Some c)
    with "1.IH" show ?thesis by (subst siftDownFrom.simps) simp
  qed
qed

lemma length_dequeue:
  "heap \<noteq> [] \<Longrightarrow> length (snd (dequeue heap)) < length heap"
  by (simp add: dequeue_def siftDown_def length_siftDownFrom)

lemma dequeue_None: "fst (dequeue heap) = None \<longleftrightarrow> heap = []"
  by (simp add: dequeue_def)

section \<open>The service (services/ingestService.js)\<close>

definition RATE_LIMIT_MS :: int where
  "RATE_LIMIT_MS = 5000"

definition BATCH_SIZE :: nat where
  "BATCH_SIZE = 3"

subsection \<open>The status aggregator\<close>

text \<open>The two \<open>batches.every(...)\<close> tests.\<close>

definition allYetToStart :: "batch list \<Rightarrow> bool" where
  "allYetToStart bs = list_all (\<lambda>b. status b = yet_to_start) bs"

definition allCompleted :: "batch list \<Rightarrow> bool" where
  "allCompleted bs = list_all (\<lambda>b. status b = completed) bs"

text \<open>The argument is \<open>None\<close> when the caller passes \<open>undefined\<close>.\<close>

definition calculateOverallStatus :: "batch list option \<Rightarrow> status" where
  "calculateOverallStatus arg =
     (case arg of
        None \<Rightarrow> yet_to_start
      | Some bs \<Rightarrow>
          if length bs = 0 then yet_to_start
          else if allYetToStart bs then yet_to_start
          else if allCompleted bs then completed
          else triggered)"

subsection \<open>The execution simulator\<close>

text \<open>
  \<open>simulateApiCall\<close> returns a promise that a timer resolves with
  \<open>{ id, data: "processed" }\<close> after a random delay; its executor never calls a reject
  function and cannot throw. The model keeps how the promise settles and leaves the
  delay to the event that reports the end of the batch.
\<close>

datatype api_result = Resolved json string | Rejected string

definition simulateApiCall :: "json \<Rightarrow> api_result" where
  "simulateApiCall i = Resolved i ''processed''"

text \<open>
  Both log lines of \<open>processSingleBatch\<close> that mention identifiers convert them to
  strings: \<open>batch.ids.join(", ")\<close> and the template literal \<open>${id}\<close>. The conversion
  throws a \<open>TypeError\<close> for a parsed object with an own property \<open>toString\<close>: the
  property hides \<open>Object.prototype.toString\<close> and its value, coming from JSON, is no
  function, and \<open>valueOf\<close>, own or inherited, yields no primitive either. An array is
  converted by joining its elements, so it throws when one of them does. Every other
  value has a string form (\<open>join\<close> writes \<open>null\<close> as the empty string, the template
  literal as \<open>null\<close>). The depth of the call stack is not modelled.
\<close>

fun printable :: "json \<Rightarrow> bool" where
  "printable (JObj props) = (utf16 ''toString'' \<notin> fst ` set props)"
| "printable (JArr xs) = list_all printable xs"
| "printable _ = True"

text \<open>The \<open>for ... await\<close> loop of \<open>processSingleBatch\<close>, inside its \<open>try\<close> block:
  \<open>True\<close> when every call resolved and every log line was written, \<open>False\<close> when a
  call rejected or a log line threw, and control went to the \<open>catch\<close> block.\<close>

fun awaitEach :: "json list \<Rightarrow> bool" where
  "awaitEach [] = True"
| "awaitEach (i # rest) =
     (case simulateApiCall i of
        Resolved _ _ \<Rightarrow> printable i \<and> awaitEach rest
      | Rejected _ \<Rightarrow> False)"

datatype js_error = TypeError

text \<open>
  How the promise of \<open>processSingleBatch\<close> settles. The first \<open>console.log\<close>, with
  \<open>batch.ids.join(", ")\<close>, stands before the \<open>try\<close> block: when it throws, the promise
  of the \<open>async\<close> function rejects and the batch object is not written. Otherwise the
  promise is fulfilled, after the \<open>try\<close> block has assigned \<open>completed\<close> or the
  \<open>catch\<close> block \<open>failed\<close>.
\<close>

datatype outcome = Fulfilled batch | Thrown js_error

definition processSingleBatch :: "batch \<Rightarrow> outcome" where
  "processSingleBatch b =
     (if \<not> list_all printable (ids b) then Thrown TypeError
      else if awaitEach (ids b) then Fulfilled (b\<lparr>status := completed\<rparr>)
      else Fulfilled (b\<lparr>status := failed\<rparr>))"

subsection \<open>Module state\<close>

text \<open>
  The state of the process: the controller's \<open>ingestionStore\<close> (its own properties),
  the batch objects, the module variables of the service, and what the runtime holds for
  it: the timers set and not yet fired or cleared (handle and delay), the batches whose
  \<open>processSingleBatch\<close> promise is still pending, and how many identifiers \<open>uuidv4\<close>
  has handed out.
\<close>

record state =
  ingestionStore :: "string \<rightharpoonup> request"
  batchObjects :: "batch list"
  jobQueue :: "job list"
  processingTimeoutId :: "nat option"
  lastProcessingStartTime :: int
  pendingTimers :: "(nat \<times> int) list"
  timerCount :: nat
  inFlight :: "nat list"
  uuidCount :: nat

definition initialState :: state where
  "initialState =
     \<lparr>ingestionStore = Map.empty, batchObjects = [], jobQueue = [],
      processingTimeoutId = None, lastProcessingStartTime = 0,
      pendingTimers = [], timerCount = 0, inFlight = [], uuidCount = 0\<rparr>"

text \<open>
  \<open>ingestionStore\<close> is an object literal \<open>{}\<close>: reading a key that is no own property
  falls through to \<open>Object.prototype\<close>, and for the property names below the read
  returns a function or an object, not \<open>undefined\<close>. None of them has a \<open>batches\<close>
  property. The keys written are results of \<open>uuidv4\<close>, 36 characters long, so a write
  always makes an own property.
\<close>

definition objectPrototypeKeys :: "string list" where
  "objectPrototypeKeys =
     [''constructor'', ''__proto__'', ''hasOwnProperty'', ''isPrototypeOf'',
      ''propertyIsEnumerable'', ''toLocaleString'', ''toString'', ''valueOf'',
      ''__defineGetter__'', ''__defineSetter__'', ''__lookupGetter__'',
      ''__lookupSetter__'']"

datatype lookup = Own request | Inherited | Undefined

definition storeGet :: "(string \<rightharpoonup> request) \<Rightarrow> string \<Rightarrow> lookup" where
  "storeGet store k =
     (case store k of
        Some r \<Rightarrow> Own r
      | None \<Rightarrow> if k \<in> set objectPrototypeKeys then Inherited else Undefined)"

subsection \<open>The scheduler loop\<close>

text \<open>\<open>ingestionData?.batches?.find((b) => b.batch_id === job.batchId)\<close>\<close>

definition findBatch :: "state \<Rightarrow> job \<Rightarrow> nat option" where
  "findBatch s j =
     (case storeGet (ingestionStore s) (ingestionId j) of
        Own r \<Rightarrow> find (\<lambda>a. batch_id (batchObjects s ! a) = batchId j) (batches r)
      | Inherited \<Rightarrow> None
      | Undefined \<Rightarrow> None)"

definition clearTimeout :: "nat option \<Rightarrow> state \<Rightarrow> state" where
  "clearTimeout h s =
     (case h of
        None \<Rightarrow> s
      | Some t \<Rightarrow> s\<lparr>pendingTimers := filter (\<lambda>p. fst p \<noteq> t) (pendingTimers s)\<rparr>)"

definition setTimeout :: "int \<Rightarrow> state \<Rightarrow> nat \<times> state" where
  "setTimeout delay s =
     (timerCount s,
      s\<lparr>pendingTimers := pendingTimers s @ [(timerCount s, delay)],
        timerCount := timerCount s + 1\<rparr>)"

text \<open>
  \<open>processQueue\<close>, with \<open>now\<close> the value \<open>Date.now()\<close> returns. Starting
  \<open>processSingleBatch\<close> puts the batch among the ones in flight; its continuation runs
  when the batch ends (\<open>onBatchSettled\<close> below).
\<close>

function processQueue :: "int \<Rightarrow> state \<Rightarrow> state" where
  "processQueue now s =
     (if jobQueue s = [] then s
      else if now - lastProcessingStartTime s < RATE_LIMIT_MS then
        (let remainingTime = RATE_LIMIT_MS - (now - lastProcessingStartTime s);
             s1 = clearTimeout (processingTimeoutId s) s;
             (h, s2) = setTimeout remainingTime s1
         in s2\<lparr>processingTimeoutId := Some h\<rparr>)
      else
        (case fst (dequeue (jobQueue s)) of
           None \<Rightarrow> s\<lparr>jobQueue := snd (dequeue (jobQueue s)), lastProcessingStartTime := 0\<rparr>
         | Some j \<Rightarrow>
             (case findBatch s j of
                Some a \<Rightarrow>
                  if status (batchObjects s ! a) = yet_to_start
                  then s\<lparr>jobQueue := snd (dequeue (jobQueue s)),
                         batchObjects :=
                           (batchObjects s)[a := (batchObjects s ! a)\<lparr>status := triggered\<rparr>],
                         lastProcessingStartTime := now,
                         inFlight := inFlight s @ [a]\<rparr>
                  else processQueue now (s\<lparr>jobQueue := snd (dequeue (jobQueue s))\<rparr>)
              | None \<Rightarrow> processQueue now (s\<lparr>jobQueue := snd (dequeue (jobQueue s))\<rparr>))))"
  by pat_completeness auto

termination processQueue
  by (relation "measure (\<lambda>(now, s). length (jobQueue s))") (auto simp: length_dequeue)

declare processQueue.simps [simp del]

text \<open>
  The state once the promise of \<open>processSingleBatch\<close> for the batch at address \<open>a\<close>
  has settled: a fulfilled promise has written the batch object, a rejected one has not.
  In both cases the promise is no longer pending.
\<close>

definition settled :: "nat \<Rightarrow> state \<Rightarrow> state" where
  "settled a s =
     (case processSingleBatch (batchObjects s ! a) of
        Fulfilled b \<Rightarrow>
          s\<lparr>batchObjects := (batchObjects s)[a := b], inFlight := remove1 a (inFlight s)\<rparr>
      | Thrown e \<Rightarrow> s\<lparr>inFlight := remove1 a (inFlight s)\<rparr>)"

text \<open>
  The callbacks \<open>processQueue\<close> attached to that promise: the \<open>then\<close> callback of a
  fulfilled promise and the \<open>catch\<close> callback of a rejected one both call
  \<open>processQueue\<close>. The callback of a rejected promise runs right after the call of
  \<open>processQueue\<close> that started the batch; the model lets it run at any later event.
\<close>

definition onBatchSettled :: "int \<Rightarrow> nat \<Rightarrow> state \<Rightarrow> state" where
  "onBatchSettled now a s =
     (if a \<in> set (inFlight s) then processQueue now (settled a s) else s)"

text \<open>The callback of the retry timer with handle \<open>h\<close>.\<close>

definition onTimer :: "int \<Rightarrow> nat \<Rightarrow> state \<Rightarrow> state" where
  "onTimer now h s =
     (if h \<in> fst ` set (pendingTimers s) then
        processQueue now (s\<lparr>pendingTimers := filter (\<lambda>p. fst p \<noteq> h) (pendingTimers s)\<rparr>)
      else s)"

subsection \<open>The batch splitter\<close>

text \<open>\<open>ids.slice(i, j)\<close> for \<open>0 \<le> i \<le> j\<close>.\<close>

definition slice :: "'a list \<Rightarrow> nat \<Rightarrow> nat \<Rightarrow> 'a list" where
  "slice xs i j = take (j - i) (drop i xs)"

text \<open>
  The \<open>for\<close> loop of \<open>processIngestionRequest\<close> from index \<open>i\<close>: \<open>refs\<close> is the
  local array \<open>batches\<close> (of addresses), the state carries the new objects, the queue and the
  identifiers drawn from \<open>uuidv4\<close>.
\<close>

function splitFrom ::
  "(nat \<Rightarrow> string) \<Rightarrow> string \<Rightarrow> json list \<Rightarrow> priority \<Rightarrow> int \<Rightarrow> nat \<Rightarrow> nat list \<Rightarrow> state
     \<Rightarrow> nat list \<times> state" where
  "splitFrom uuidv4 ingId items prio created i refs s =
     (if i < length items then
        (let batchIds = slice items i (i + BATCH_SIZE);
             b = \<lparr>batch_id = uuidv4 (uuidCount s), ids = batchIds, status = yet_to_start\<rparr>;
             s1 = s\<lparr>batchObjects := batchObjects s @ [b],
                    uuidCount := uuidCount s + 1,
                    jobQueue := enqueue (jobQueue s)
                      \<lparr>ingestionId = ingId, batchId = batch_id b,
                       priority = prio, createdAt = created\<rparr>\<rparr>
         in splitFrom uuidv4 ingId items prio created (i + BATCH_SIZE)
              (refs @ [length (batchObjects s)]) s1)
      else (refs, s))"
  by pat_completeness auto

termination splitFrom
  by (relation "measure (\<lambda>(uuidv4, ingId, items, prio, created, i, refs, s). length items - i)")
     (auto simp: BATCH_SIZE_def)

declare splitFrom.simps [simp del]

text \<open>Assigning to a property of \<open>ingestionStore[ingestionId]\<close> throws when the store has
  no such record; the effects of the loop stay.\<close>

definition processIngestionRequest ::
  "(nat \<Rightarrow> string) \<Rightarrow> int \<Rightarrow> string \<Rightarrow> json list \<Rightarrow> priority \<Rightarrow> int \<Rightarrow> state
     \<Rightarrow> (js_error \<times> state) + state" where
  "processIngestionRequest uuidv4 now ingId items prio created s =
     (let (refs, s1) = splitFrom uuidv4 ingId items prio created 0 [] s
      in case ingestionStore s1 ingId of
           None \<Rightarrow> Inl (TypeError, s1)
         | Some r \<Rightarrow>
             Inr (processQueue now
               (s1\<lparr>ingestionStore := (ingestionStore s1)(ingId \<mapsto>
                     r\<lparr>batches := refs,
                       req_status :=
                         calculateOverallStatus (Some (map (\<lambda>a. batchObjects s1 ! a) refs)),
                       req_priority := prio\<rparr>)\<rparr>)))"

section \<open>The controller (controllers/ingestController.js)\<close>

subsection \<open>Requests and responses\<close>

text \<open>
  The two properties the controller reads from \<open>req.body\<close>, each \<open>None\<close> when the
  parsed body has no such property and the destructuring yields \<open>undefined\<close>.
\<close>

record body =
  body_ids :: "json option"
  body_priority :: "json option"

text \<open>The values that count as true in a condition: all but \<open>null\<close>, \<open>false\<close>,
  \<open>0\<close> and the empty string.\<close>

definition truthy :: "json \<Rightarrow> bool" where
  "truthy v =
     (case v of
        JNull \<Rightarrow> False
      | JBool t \<Rightarrow> t
      | JNum x \<Rightarrow> x \<noteq> 0
      | JStr str \<Rightarrow> str \<noteq> []
      | JArr xs \<Rightarrow> True
      | JObj props \<Rightarrow> True)"

text \<open>The JSON of a status response: \<open>ingestion_id\<close>, \<open>status\<close>, \<open>batches\<close>.\<close>

record status_response =
  ingestion_id :: string
  response_status :: status
  response_batches :: "batch list"

text \<open>A response by its status code. \<open>Error500\<close> is what the error middleware of
  \<open>app.js\<close> sends when a handler throws.\<close>

datatype response =
    Json400 string
  | Json202 string
  | Json404 string
  | Json200 status_response
  | Error500 string

text \<open>
  \<open>String.prototype.toUpperCase\<close>, which maps every character by the Unicode case
  mapping, whatever the locale. \<open>toUpperUnit\<close> lists all characters whose upper-case
  form is made of ASCII characters only: the letters \<open>a\<close> to \<open>z\<close>, the sharp s (U+00DF,
  to \<open>SS\<close>), the dotless i (U+0131, to \<open>I\<close>), the long s (U+017F, to \<open>S\<close>) and the
  ligatures U+FB00 to U+FB06 (to \<open>FF\<close>, \<open>FI\<close>, \<open>FL\<close>, \<open>FFI\<close>, \<open>FFL\<close>, \<open>ST\<close>,
  \<open>ST\<close>). Any other code unit is kept. For an ASCII character that is the upper-case
  form. For a character outside ASCII the upper-case form, where it differs, contains
  a code unit above 127, as the character itself does; the program only tests whether
  the result is one of three ASCII words, and a string with a code unit above 127 is
  none of them.
\<close>

definition toUpperUnit :: "16 word \<Rightarrow> js_string" where
  "toUpperUnit c =
     (if 97 \<le> c \<and> c \<le> 122 then [c - 32]
      else if c = 223 then utf16 ''SS''
      else if c = 305 then utf16 ''I''
      else if c = 383 then utf16 ''S''
      else if c = 64256 then utf16 ''FF''
      else if c = 64257 then utf16 ''FI''
      else if c = 64258 then utf16 ''FL''
      else if c = 64259 then utf16 ''FFI''
      else if c = 64260 then utf16 ''FFL''
      else if c = 64261 \<or> c = 64262 then utf16 ''ST''
      else [c])"

definition toUpperCase :: "js_string \<Rightarrow> js_string" where
  "toUpperCase str = concat (map toUpperUnit str)"

text \<open>\<open>['HIGH', 'MEDIUM', 'LOW'].includes(p)\<close>, with the value the string stands for.\<close>

definition parsePriority :: "js_string \<Rightarrow> priority option" where
  "parsePriority p =
     (if p = utf16 ''HIGH'' then Some HIGH
      else if p = utf16 ''MEDIUM'' then Some MEDIUM
      else if p = utf16 ''LOW'' then Some LOW
      else None)"

definition idsError :: string where
  "idsError = ''Invalid input: ids array is required and cannot be empty.''"

definition priorityError :: string where
  "priorityError = ''Invalid input: priority is required and must be HIGH, MEDIUM, or LOW.''"

definition somethingBroke :: string where
  "somethingBroke = ''Something broke!''"

subsection \<open>Handlers\<close>

text \<open>\<open>ids\<close> when \<open>ids && Array.isArray(ids)\<close> holds: the elements of the array.\<close>

definition arrayOf :: "json option \<Rightarrow> json list option" where
  "arrayOf field = (case field of Some (JArr items) \<Rightarrow> Some items | _ \<Rightarrow> None)"

text \<open>
  \<open>handleIngestRequest\<close>: the response and the state at the moment it is sent. A
  \<open>priority\<close> that is \<open>undefined\<close> or not truthy is refused before
  \<open>priority.toUpperCase()\<close> is reached; a truthy value that is no string has no such
  method, and the call throws.
\<close>

definition handleIngestRequest ::
  "(nat \<Rightarrow> string) \<Rightarrow> int \<Rightarrow> body \<Rightarrow> state \<Rightarrow> response \<times> state" where
  "handleIngestRequest uuidv4 now b s =
     (case arrayOf (body_ids b) of
        None \<Rightarrow> (Json400 idsError, s)
      | Some items \<Rightarrow>
          if length items = 0 then (Json400 idsError, s)
          else
            (case body_priority b of
               None \<Rightarrow> (Json400 priorityError, s)
             | Some v \<Rightarrow>
                 if \<not> truthy v then (Json400 priorityError, s)
                 else
                   (case v of
                      JStr p \<Rightarrow>
                        (case parsePriority (toUpperCase p) of
                           None \<Rightarrow> (Json400 priorityError, s)
                         | Some prio \<Rightarrow>
                             (let ingId = uuidv4 (uuidCount s);
                                  s1 = s\<lparr>uuidCount := uuidCount s + 1,
                                         ingestionStore := (ingestionStore s)(ingId \<mapsto>
                                           \<lparr>req_status = yet_to_start, batches = [],
                                            req_priority = prio, req_createdAt = now,
                                            original_ids = items\<rparr>)\<rparr>
                              in case processIngestionRequest uuidv4 now ingId items prio now s1 of
                                   Inl (e, s2) \<Rightarrow> (Error500 somethingBroke, s2)
                                 | Inr s2 \<Rightarrow> (Json202 ingId, s2)))
                    | _ \<Rightarrow> (Error500 somethingBroke, s))))"

text \<open>\<open>getIngestionStatus\<close>. On an inherited property \<open>requestData.batches\<close> is
  \<open>undefined\<close> and \<open>requestData.batches.map\<close> throws.\<close>

definition getIngestionStatus :: "string \<Rightarrow> state \<Rightarrow> response" where
  "getIngestionStatus ingId s =
     (case storeGet (ingestionStore s) ingId of
        Undefined \<Rightarrow> Json404 ''Ingestion ID not found.''
      | Inherited \<Rightarrow> Error500 somethingBroke
      | Own requestData \<Rightarrow>
          (let bs = map (\<lambda>a. batchObjects s ! a) (batches requestData)
           in Json200
                \<lparr>ingestion_id = ingId,
                 response_status = calculateOverallStatus (Some bs),
                 response_batches =
                   map (\<lambda>b. \<lparr>batch_id = batch_id b, ids = ids b, status = status b\<rparr>) bs\<rparr>))"

section \<open>Runs of the system\<close>

text \<open>
  What the event loop runs: the two routes, the callback of a retry timer, the end of a
  batch. A handler runs to completion at one clock reading. \<open>uuidv4\<close> is the sequence of
  identifiers the id source hands out. \<open>resetServiceStateForTesting\<close> is called by the
  tests only and is no event.
\<close>

datatype event =
    PostIngest body
  | GetStatus string
  | TimerFired nat
  | BatchSettled nat

fun step :: "(nat \<Rightarrow> string) \<Rightarrow> int \<Rightarrow> event \<Rightarrow> state \<Rightarrow> state" where
  "step uuidv4 now (PostIngest b) s = snd (handleIngestRequest uuidv4 now b s)"
| "step uuidv4 now (GetStatus ingId) s = s"
| "step uuidv4 now (TimerFired h) s = onTimer now h s"
| "step uuidv4 now (BatchSettled a) s = onBatchSettled now a s"

fun run :: "(nat \<Rightarrow> string) \<Rightarrow> (int \<times> event) list \<Rightarrow> state \<Rightarrow> state" where
  "run uuidv4 [] s = s"
| "run uuidv4 ((now, ev) # rest) s = run uuidv4 rest (step uuidv4 now ev s)"

text \<open>The batches a step moves from \<open>yet_to_start\<close> to \<open>triggered\<close>: the ones that are
  \<open>triggered\<close> after it and were \<open>yet_to_start\<close>, or did not exist, before it.\<close>

definition started :: "state \<Rightarrow> state \<Rightarrow> nat list" where
  "started s s' =
     filter
       (\<lambda>a. status (batchObjects s' ! a) = triggered
              \<and> (a < length (batchObjects s) \<longrightarrow> status (batchObjects s ! a) = yet_to_start))
       [0..<length (batchObjects s')]"

text \<open>The clock readings of the transitions to \<open>triggered\<close> of a run, in order.\<close>

fun admissionTimes :: "(nat \<Rightarrow> string) \<Rightarrow> (int \<times> event) list \<Rightarrow> state \<Rightarrow> int list" where
  "admissionTimes uuidv4 [] s = []"
| "admissionTimes uuidv4 ((now, ev) # rest) s =
     map (\<lambda>a. now) (started s (step uuidv4 now ev s))
       @ admissionTimes uuidv4 rest (step uuidv4 now ev s)"

section \<open>The status aggregator\<close>

text \<open>
  C4, as stated, at the empty list: every batch of the empty list is \<open>completed\<close>, and
  the aggregator answers \<open>yet_to_start\<close>, by its first guard.
\<close>

theorem C4_empty_list_counterexample:
  "allCompleted [] \<and> calculateOverallStatus (Some []) \<noteq> completed"
  by (simp add: allCompleted_def calculateOverallStatus_def)

text \<open>
  C4 (amended): for every non-empty list of batches, the status aggregator returns
  \<open>yet_to_start\<close> if and only if every batch is \<open>yet_to_start\<close>, \<open>completed\<close> if and
  only if every batch is \<open>completed\<close>, and \<open>triggered\<close> otherwise; so a request with a
  \<open>failed\<close> batch reports \<open>triggered\<close> and never \<open>completed\<close>. For the empty list it
  returns \<open>yet_to_start\<close>.
\<close>

theorem C4_overall_status:
  assumes "bs \<noteq> []"
  shows "(calculateOverallStatus (Some bs) = yet_to_start
            \<longleftrightarrow> (\<forall>b \<in> set bs. status b = yet_to_start))
       \<and> (calculateOverallStatus (Some bs) = completed
            \<longleftrightarrow> (\<forall>b \<in> set bs. status b = completed))
       \<and> (\<not> (\<forall>b \<in> set bs. status b = yet_to_start)
            \<and> \<not> (\<forall>b \<in> set bs. status b = completed)
            \<longrightarrow> calculateOverallStatus (Some bs) = triggered)
       \<and> ((\<exists>b \<in> set bs. status b = failed)
            \<longrightarrow> calculateOverallStatus (Some bs) = triggered)
       \<and> calculateOverallStatus (Some []) = yet_to_start"
proof -
  obtain b0 where b0: "b0 \<in> set bs" using assms by (cases bs) auto
  have not_both: "\<not> (allYetToStart bs \<and> allCompleted bs)"
    using b0 by (auto simp: allYetToStart_def allCompleted_def list_all_iff)
  have ys: "allYetToStart bs \<longleftrightarrow> (\<forall>b \<in> set bs. status b = yet_to_start)"
    by (simp add: allYetToStart_def list_all_iff)
  have cs: "allCompleted bs \<longleftrightarrow> (\<forall>b \<in> set bs. status b = completed)"
    by (simp add: allCompleted_def list_all_iff)
  have val: "calculateOverallStatus (Some bs) =
      (if allYetToStart bs then yet_to_start
       else if allCompleted bs then completed else triggered)"
    using assms by (simp add: calculateOverallStatus_def)
  have failed_case: "(\<exists>b \<in> set bs. status b = failed)
      \<longrightarrow> \<not> allYetToStart bs \<and> \<not> allCompleted bs"
    unfolding ys cs by force
  show ?thesis
    using not_both failed_case unfolding val ys [symmetric] cs [symmetric]
    by (auto simp: calculateOverallStatus_def)
qed

theorem C4_overall_status_witness:
  "calculateOverallStatus
     (Some [\<lparr>batch_id = ''b1'', ids = numbers [1, 2, 3], status = completed\<rparr>,
            \<lparr>batch_id = ''b2'', ids = numbers [4], status = failed\<rparr>]) = triggered"
  using C4_overall_status
    [of "[\<lparr>batch_id = ''b1'', ids = numbers [1, 2, 3], status = completed\<rparr>,
          \<lparr>batch_id = ''b2'', ids = numbers [4], status = failed\<rparr>]"]
  by simp

section \<open>The batch splitter and the scheduler loop: auxiliary facts\<close>

text \<open>The number of batches the loop of \<open>processIngestionRequest\<close> makes from index
  \<open>i\<close> on, and the \<open>k\<close>-th batch and job among them.\<close>

definition chunkCount :: "'a list \<Rightarrow> nat \<Rightarrow> nat" where
  "chunkCount items i = (length items - i + (BATCH_SIZE - 1)) div BATCH_SIZE"

definition chunkAt :: "(nat \<Rightarrow> string) \<Rightarrow> nat \<Rightarrow> json list \<Rightarrow> nat \<Rightarrow> nat \<Rightarrow> batch" where
  "chunkAt uuidv4 c items i k =
     \<lparr>batch_id = uuidv4 (c + k),
      ids = slice items (i + k * BATCH_SIZE) (i + k * BATCH_SIZE + BATCH_SIZE),
      status = yet_to_start\<rparr>"

definition jobAt :: "(nat \<Rightarrow> string) \<Rightarrow> nat \<Rightarrow> string \<Rightarrow> priority \<Rightarrow> int \<Rightarrow> nat \<Rightarrow> job" where
  "jobAt uuidv4 c ingId prio created k =
     \<lparr>ingestionId = ingId, batchId = uuidv4 (c + k), priority = prio, createdAt = created\<rparr>"

lemma chunkCount_step:
  "i < length items \<Longrightarrow> chunkCount items i = Suc (chunkCount items (i + BATCH_SIZE))"
  by (simp add: chunkCount_def BATCH_SIZE_def) presburger

lemma chunkCount_done: "\<not> i < length items \<Longrightarrow> chunkCount items i = 0"
  by (simp add: chunkCount_def BATCH_SIZE_def)

lemma map_upt_shift: "map f [0..<Suc n] = f 0 # map (\<lambda>k. f (Suc k)) [0..<n]"
  by (simp add: map_upt_Suc del: upt_Suc)

lemma splitFrom_result:
  "splitFrom uuidv4 ingId items prio created i refs s =
     (refs @ [length (batchObjects s) ..< length (batchObjects s) + chunkCount items i],
      s\<lparr>batchObjects := batchObjects s
            @ map (chunkAt uuidv4 (uuidCount s) items i) [0..<chunkCount items i],
        uuidCount := uuidCount s + chunkCount items i,
        jobQueue := foldl enqueue (jobQueue s)
            (map (jobAt uuidv4 (uuidCount s) ingId prio created) [0..<chunkCount items i])\<rparr>)"
proof (induction uuidv4 ingId items prio created i refs s rule: splitFrom.induct)
  case (1 uuidv4 ingId items prio created i refs s)
  show ?case
  proof (cases "i < length items")
    case False
    then show ?thesis
      by (subst splitFrom.simps) (simp add: chunkCount_done)
  next
    case True
    note IH = "1.IH" [OF True refl refl refl]
    have n: "chunkCount items i = Suc (chunkCount items (i + BATCH_SIZE))"
      using True by (rule chunkCount_step)
    have c0: "chunkAt uuidv4 (uuidCount s) items i 0 =
        \<lparr>batch_id = uuidv4 (uuidCount s), ids = slice items i (i + BATCH_SIZE),
         status = yet_to_start\<rparr>"
      by (simp add: chunkAt_def)
    have cS: "\<And>k. chunkAt uuidv4 (uuidCount s) items i (Suc k) =
        chunkAt uuidv4 (uuidCount s + 1) items (i + BATCH_SIZE) k"
      by (simp add: chunkAt_def ac_simps)
    have j0: "jobAt uuidv4 (uuidCount s) ingId prio created 0 =
        \<lparr>ingestionId = ingId, batchId = uuidv4 (uuidCount s), priority = prio,
         createdAt = created\<rparr>"
      by (simp add: jobAt_def)
    have jS: "\<And>k. jobAt uuidv4 (uuidCount s) ingId prio created (Suc k) =
        jobAt uuidv4 (uuidCount s + 1) ingId prio created k"
      by (simp add: jobAt_def)
    have upt: "[length (batchObjects s) ..< length (batchObjects s) + Suc m]
        = length (batchObjects s) # [Suc (length (batchObjects s)) ..< Suc (length (batchObjects s)) + m]" for m
      by (simp add: upt_rec)
    show ?thesis
      apply (subst splitFrom.simps)
      apply (simp only: True if_True Let_def IH)
      apply (simp only: n map_upt_shift c0 cS j0 jS upt)
      apply (simp)
      done
  qed
qed


text \<open>What one call of the scheduler loop can do to the state.\<close>

definition idles :: "state \<Rightarrow> state \<Rightarrow> bool" where
  "idles s s' \<longleftrightarrow>
     batchObjects s' = batchObjects s
     \<and> lastProcessingStartTime s' = lastProcessingStartTime s
     \<and> inFlight s' = inFlight s
     \<and> ingestionStore s' = ingestionStore s
     \<and> uuidCount s' = uuidCount s"

definition admits :: "int \<Rightarrow> state \<Rightarrow> state \<Rightarrow> nat \<Rightarrow> bool" where
  "admits now s s' a \<longleftrightarrow>
     status (batchObjects s ! a) = yet_to_start
     \<and> RATE_LIMIT_MS \<le> now - lastProcessingStartTime s
     \<and> batchObjects s' = (batchObjects s)[a := (batchObjects s ! a)\<lparr>status := triggered\<rparr>]
     \<and> lastProcessingStartTime s' = now
     \<and> inFlight s' = inFlight s @ [a]
     \<and> ingestionStore s' = ingestionStore s
     \<and> uuidCount s' = uuidCount s
     \<and> (\<exists>j r. j \<in> set (jobQueue s) \<and> ingestionStore s (ingestionId j) = Some r
            \<and> a \<in> set (batches r))"

lemma findBatch_jobQueue [simp]: "findBatch (s\<lparr>jobQueue := q\<rparr>) j = findBatch s j"
  by (simp add: findBatch_def split: lookup.splits)

lemma findBatch_Some:
  "findBatch s j = Some a \<Longrightarrow>
     \<exists>r. ingestionStore s (ingestionId j) = Some r \<and> a \<in> set (batches r)
         \<and> batch_id (batchObjects s ! a) = batchId j"
  by (auto simp: findBatch_def storeGet_def find_Some_iff
           split: lookup.splits option.splits if_splits)

lemma mset_siftDownFrom: "mset (siftDownFrom heap n) = mset heap"
proof (induction heap n rule: siftDownFrom.induct)
  case (1 heap nodeIdx)
  show ?case
  proof (cases "smallestChildIdx heap nodeIdx")
    case None
    then show ?thesis by (subst siftDownFrom.simps) simp
  next
    case (Some c)
    then have "nodeIdx < length heap" "c < length heap"
      using smallestChildIdx_Some [OF Some] by auto
    then have "mset (heap[nodeIdx := heap ! c, c := heap ! nodeIdx]) = mset heap"
      by (simp add: mset_swap)
    with "1.IH" [OF Some] show ?thesis
      using Some by (subst siftDownFrom.simps) simp
  qed
qed

lemma mset_dequeue:
  assumes "heap \<noteq> []"
  shows "add_mset (heap ! 0) (mset (snd (dequeue heap))) = mset heap"
    and "fst (dequeue heap) = Some (heap ! 0)"
proof -
  obtain xs x where h: "heap = xs @ [x]" using assms by (cases heap rule: rev_cases) auto
  show "fst (dequeue heap) = Some (heap ! 0)" using assms by (simp add: dequeue_def)
  show "add_mset (heap ! 0) (mset (snd (dequeue heap))) = mset heap"
  proof (cases "xs = []")
    case True
    then show ?thesis using h by (simp add: dequeue_def)
  next
    case False
    then have "xs ! 0 \<in># mset xs" by (cases xs) auto
    then show ?thesis
      using h False
      by (simp add: dequeue_def siftDown_def mset_siftDownFrom mset_update nth_append)
  qed
qed

lemma set_dequeue_subset: "set (snd (dequeue heap)) \<subseteq> set heap"
proof (cases "heap = []")
  case True
  then show ?thesis by (simp add: dequeue_def)
next
  case False
  from mset_dequeue(1) [OF False]
  have "set_mset (add_mset (heap ! 0) (mset (snd (dequeue heap)))) = set_mset (mset heap)"
    by simp
  then show ?thesis by auto
qed

lemma processQueue_outcome:
  "idles s (processQueue now s) \<or> (\<exists>a. admits now s (processQueue now s) a)"
proof (induction now s rule: processQueue.induct)
  case (1 now s)
  show ?case
  proof (cases "jobQueue s = []")
    case True
    then show ?thesis by (subst processQueue.simps) (simp add: idles_def)
  next
    case nonempty: False
    show ?thesis
    proof (cases "now - lastProcessingStartTime s < RATE_LIMIT_MS")
      case True
      then show ?thesis
        using nonempty
        by (subst processQueue.simps)
           (simp add: idles_def Let_def setTimeout_def clearTimeout_def split: option.splits)
    next
      case elapsed: False
      from nonempty have hd: "fst (dequeue (jobQueue s)) = Some (jobQueue s ! 0)"
        by (rule mset_dequeue(2))
      let ?j = "jobQueue s ! 0"
      let ?s1 = "s\<lparr>jobQueue := snd (dequeue (jobQueue s))\<rparr>"
      have jin: "?j \<in> set (jobQueue s)" using nonempty by simp
      have sub: "set (jobQueue ?s1) \<subseteq> set (jobQueue s)" by (simp add: set_dequeue_subset)
      have lift: "idles s (processQueue now ?s1) \<or> (\<exists>a. admits now s (processQueue now ?s1) a)"
        if "idles ?s1 (processQueue now ?s1) \<or> (\<exists>a. admits now ?s1 (processQueue now ?s1) a)"
        using that sub by (auto simp: idles_def admits_def)
      show ?thesis
      proof (cases "findBatch s ?j")
        case None
        have "processQueue now s = processQueue now ?s1"
          using nonempty elapsed hd None by (subst processQueue.simps) simp
        moreover note "1.IH"(1) [OF nonempty elapsed hd None]
        ultimately show ?thesis using lift by simp
      next
        case (Some a)
        show ?thesis
        proof (cases "status (batchObjects s ! a) = yet_to_start")
          case False
          have "processQueue now s = processQueue now ?s1"
            using nonempty elapsed hd Some False by (subst processQueue.simps) simp
          moreover note "1.IH"(2) [OF nonempty elapsed hd Some False]
          ultimately show ?thesis using lift by simp
        next
          case True
          have ex: "\<exists>j r. j \<in> set (jobQueue s) \<and> ingestionStore s (ingestionId j) = Some r
              \<and> a \<in> set (batches r)"
            using jin findBatch_Some [OF Some] by blast
          have "processQueue now s =
              s\<lparr>jobQueue := snd (dequeue (jobQueue s)),
                batchObjects :=
                  (batchObjects s)[a := (batchObjects s ! a)\<lparr>status := triggered\<rparr>],
                lastProcessingStartTime := now,
                inFlight := inFlight s @ [a]\<rparr>"
            using nonempty elapsed hd Some True by (subst processQueue.simps) simp
          then have "admits now s (processQueue now s) a"
            using elapsed True ex by (simp add: admits_def)
          then show ?thesis by blast
        qed
      qed
    qed
  qed
qed


lemma map_same_field:
  "f y = f (xs ! a) \<Longrightarrow> map f (xs[a := y]) = map f xs"
  by (cases "a < length xs") (simp_all add: map_update list_update_same_conv list_update_beyond)

lemma outcome_fields:
  assumes "idles s s' \<or> (\<exists>a. admits now s s' a)"
  shows "map ids (batchObjects s') = map ids (batchObjects s)"
    and "map batch_id (batchObjects s') = map batch_id (batchObjects s)"
    and "length (batchObjects s') = length (batchObjects s)"
    and "ingestionStore s' = ingestionStore s"
    and "uuidCount s' = uuidCount s"
  using assms
  by (auto simp: idles_def admits_def map_same_field)

lemma chunkCount_0_iff: "chunkCount items i = 0 \<longleftrightarrow> length items \<le> i"
  by (auto simp: chunkCount_def BATCH_SIZE_def)

lemma concat_chunks:
  "concat (map (\<lambda>k. slice items (i + k * BATCH_SIZE) (i + k * BATCH_SIZE + BATCH_SIZE))
             [0..<chunkCount items i]) = drop i items"
proof (induction "chunkCount items i" arbitrary: i)
  case 0
  then show ?case by (simp add: chunkCount_0_iff)
next
  case (Suc m)
  then have lt: "i < length items"
    by (metis chunkCount_0_iff not_le Zero_not_Suc)
  then have m: "m = chunkCount items (i + BATCH_SIZE)"
    using Suc.hyps(2) chunkCount_step [OF lt] by simp
  have "concat (map (\<lambda>k. slice items (i + k * BATCH_SIZE) (i + k * BATCH_SIZE + BATCH_SIZE))
             [0..<Suc m])
      = slice items i (i + BATCH_SIZE)
        @ concat (map (\<lambda>k. slice items ((i + BATCH_SIZE) + k * BATCH_SIZE)
                                ((i + BATCH_SIZE) + k * BATCH_SIZE + BATCH_SIZE)) [0..<m])"
    by (simp only: map_upt_shift) (simp add: ac_simps)
  also have "\<dots> = slice items i (i + BATCH_SIZE) @ drop (i + BATCH_SIZE) items"
    using Suc.hyps(1) [OF m] m by simp
  also have "\<dots> = drop i items"
    by (simp add: slice_def add.commute [of i] flip: drop_drop)
  finally show ?case using Suc.hyps(2) by simp
qed

lemma chunkCount_ceiling:
  "int (chunkCount items 0) = \<lceil>real (length items) / real BATCH_SIZE\<rceil>"
proof -
  have "\<lceil>real (length items) / real BATCH_SIZE\<rceil>
      = \<lceil>of_int (int (length items)) / (of_int 3 :: real)\<rceil>"
    by (simp add: BATCH_SIZE_def)
  also have "\<dots> = - (- int (length items) div 3)"
    by (rule ceiling_divide_eq_div)
  also have "\<dots> = int ((length items + 2) div 3)" by (simp add: zdiv_int)
  finally show ?thesis by (simp add: chunkCount_def BATCH_SIZE_def)
qed

lemma length_slice: "length (slice xs i j) = min (j - i) (length xs - i)"
  by (simp add: slice_def)

section \<open>The batch splitter\<close>

text \<open>An id source for the examples: the \<open>n\<close>-th identifier is \<open>id-\<close> followed by
  \<open>n\<close> times \<open>x\<close>.\<close>

definition sampleUuid :: "nat \<Rightarrow> string" where
  "sampleUuid n = ''id-'' @ replicate n (CHR ''x'')"

text \<open>
  C3: for a list of \<open>N\<close> items and the batch capacity \<open>BATCH_SIZE = 3\<close>,
  \<open>processIngestionRequest\<close> stores exactly \<open>\<lceil>N / 3\<rceil>\<close> batches in the request's
  record; batch \<open>k\<close> holds \<open>items[3k : 3k + 3]\<close>, so every batch has at most 3 items and
  only the last may have fewer; the item lists of the batches, concatenated in order, are
  the input list. (The record of the request is in the store, where the controller has
  put it before the call.)
\<close>

theorem C3_batch_splitter:
  assumes "ingestionStore s ingId = Some r"
  shows "\<exists>s' r'. processIngestionRequest uuidv4 now ingId items prio created s = Inr s'
      \<and> ingestionStore s' ingId = Some r'
      \<and> int (length (batches r')) = \<lceil>real (length items) / real BATCH_SIZE\<rceil>
      \<and> (\<forall>k < length (batches r').
            ids (batchObjects s' ! (batches r' ! k))
              = slice items (k * BATCH_SIZE) (k * BATCH_SIZE + BATCH_SIZE)
            \<and> length (ids (batchObjects s' ! (batches r' ! k))) \<le> BATCH_SIZE
            \<and> (k + 1 < length (batches r')
                 \<longrightarrow> length (ids (batchObjects s' ! (batches r' ! k))) = BATCH_SIZE))
      \<and> concat (map (\<lambda>a. ids (batchObjects s' ! a)) (batches r')) = items"
proof -
  define n where "n = chunkCount items 0"
  define l where "l = length (batchObjects s)"
  define new where "new = map (chunkAt uuidv4 (uuidCount s) items 0) [0..<n]"
  define s1 where "s1 = s\<lparr>batchObjects := batchObjects s @ new,
        uuidCount := uuidCount s + n,
        jobQueue := foldl enqueue (jobQueue s)
            (map (jobAt uuidv4 (uuidCount s) ingId prio created) [0..<n])\<rparr>"
  define r' where "r' = r\<lparr>batches := [l..<l + n],
       req_status := calculateOverallStatus (Some (map (\<lambda>a. batchObjects s1 ! a) [l..<l + n])),
       req_priority := prio\<rparr>"
  define s2 where "s2 = s1\<lparr>ingestionStore := (ingestionStore s1)(ingId \<mapsto> r')\<rparr>"
  define s' where "s' = processQueue now s2"
  have res: "processIngestionRequest uuidv4 now ingId items prio created s = Inr s'"
    using assms
    by (simp add: processIngestionRequest_def splitFrom_result s'_def s2_def r'_def s1_def
          new_def n_def l_def)
  note out = outcome_fields [OF processQueue_outcome [of s2 now], folded s'_def]
  have store: "ingestionStore s' ingId = Some r'" by (simp add: out(4) s2_def)
  have refs: "batches r' = [l..<l + n]" by (simp add: r'_def)
  have objs2: "batchObjects s2 = batchObjects s @ new" by (simp add: s2_def s1_def)
  have idsAt: "ids (batchObjects s' ! (l + k))
      = slice items (k * BATCH_SIZE) (k * BATCH_SIZE + BATCH_SIZE)" if "k < n" for k
  proof -
    have "ids (batchObjects s' ! (l + k)) = map ids (batchObjects s') ! (l + k)"
      using that by (simp add: out(3) objs2 l_def new_def)
    also have "\<dots> = map ids (batchObjects s2) ! (l + k)" by (simp only: out(1))
    also have "\<dots> = ids (chunkAt uuidv4 (uuidCount s) items 0 k)"
      using that by (simp add: objs2 nth_append l_def new_def)
    finally show ?thesis by (simp add: chunkAt_def)
  qed
  have lenAt: "length (slice items (k * BATCH_SIZE) (k * BATCH_SIZE + BATCH_SIZE)) = BATCH_SIZE"
    if "k + 1 < n" for k
  proof -
    have "k + 2 \<le> (length items + 2) div 3"
      using that unfolding n_def chunkCount_def BATCH_SIZE_def by simp
    then have "(k + 2) * 3 \<le> length items + 2" by presburger
    then show ?thesis by (simp add: length_slice BATCH_SIZE_def)
  qed
  have "map (\<lambda>a. ids (batchObjects s' ! a)) [l..<l + n]
      = map (\<lambda>k. slice items (0 + k * BATCH_SIZE) (0 + k * BATCH_SIZE + BATCH_SIZE)) [0..<n]"
    by (rule nth_equalityI) (use idsAt in \<open>auto simp del: upt_Suc\<close>)
  then have cc: "concat (map (\<lambda>a. ids (batchObjects s' ! a)) [l..<l + n]) = items"
    using concat_chunks [of items 0] by (simp add: n_def)
  have cnt: "int n = \<lceil>real (length items) / real BATCH_SIZE\<rceil>"
    by (simp add: n_def chunkCount_ceiling)
  have each: "\<forall>k < length (batches r').
            ids (batchObjects s' ! (batches r' ! k))
              = slice items (k * BATCH_SIZE) (k * BATCH_SIZE + BATCH_SIZE)
            \<and> length (ids (batchObjects s' ! (batches r' ! k))) \<le> BATCH_SIZE
            \<and> (k + 1 < length (batches r')
                 \<longrightarrow> length (ids (batchObjects s' ! (batches r' ! k))) = BATCH_SIZE)"
    using idsAt lenAt by (simp add: refs length_slice)
  show ?thesis
    using res store cnt each cc by (auto simp: refs)
qed

theorem C3_batch_splitter_witness:
  "\<exists>s' r'. processIngestionRequest sampleUuid 5000 ''req'' (numbers [1, 2, 3, 4]) MEDIUM 5000
        (initialState\<lparr>ingestionStore := [''req'' \<mapsto>
           \<lparr>req_status = yet_to_start, batches = [], req_priority = MEDIUM,
            req_createdAt = 5000, original_ids = numbers [1, 2, 3, 4]\<rparr>]\<rparr>) = Inr s'
      \<and> ingestionStore s' ''req'' = Some r'
      \<and> length (batches r') = 2
      \<and> ids (batchObjects s' ! (batches r' ! 0)) = numbers [1, 2, 3]
      \<and> ids (batchObjects s' ! (batches r' ! 1)) = numbers [4]
      \<and> concat (map (\<lambda>a. ids (batchObjects s' ! a)) (batches r')) = numbers [1, 2, 3, 4]"
proof -
  let ?s = "initialState\<lparr>ingestionStore := [''req'' \<mapsto>
           \<lparr>req_status = yet_to_start, batches = [], req_priority = MEDIUM,
            req_createdAt = 5000, original_ids = numbers [1, 2, 3, 4]\<rparr>]\<rparr>"
  have h: "ingestionStore ?s ''req'' = Some
           \<lparr>req_status = yet_to_start, batches = [], req_priority = MEDIUM,
            req_createdAt = 5000, original_ids = numbers [1, 2, 3, 4]\<rparr>"
    by simp
  have c: "\<lceil>real (length (numbers [1, 2, 3, 4])) / real BATCH_SIZE\<rceil> = 2"
    by (simp add: BATCH_SIZE_def ceiling_eq_iff numbers_def)
  from C3_batch_splitter [OF h, of sampleUuid 5000 "numbers [1, 2, 3, 4]" MEDIUM 5000]
  obtain s' r' where
    "processIngestionRequest sampleUuid 5000 ''req'' (numbers [1, 2, 3, 4]) MEDIUM 5000 ?s = Inr s'"
    "ingestionStore s' ''req'' = Some r'"
    "int (length (batches r')) = \<lceil>real (length (numbers [1, 2, 3, 4])) / real BATCH_SIZE\<rceil>"
    "\<forall>k < length (batches r').
       ids (batchObjects s' ! (batches r' ! k))
         = slice (numbers [1, 2, 3, 4]) (k * BATCH_SIZE) (k * BATCH_SIZE + BATCH_SIZE)"
    "concat (map (\<lambda>a. ids (batchObjects s' ! a)) (batches r')) = numbers [1, 2, 3, 4]"
    by blast
  then show ?thesis
    unfolding c
    by (intro exI [of _ s'] exI [of _ r']) (simp add: slice_def BATCH_SIZE_def numbers_def)
qed

section \<open>Submission\<close>

text \<open>The state in which \<open>handleIngestRequest\<close> calls \<open>processQueue\<close> for an accepted
  request with the given items and priority.\<close>

definition accepted :: "(nat \<Rightarrow> string) \<Rightarrow> int \<Rightarrow> json list \<Rightarrow> priority \<Rightarrow> state \<Rightarrow> state" where
  "accepted uuidv4 now items prio s =
     (let c = uuidCount s; l = length (batchObjects s); n = chunkCount items 0;
          new = map (chunkAt uuidv4 (c + 1) items 0) [0..<n]
      in s\<lparr>batchObjects := batchObjects s @ new,
           uuidCount := c + 1 + n,
           jobQueue := foldl enqueue (jobQueue s)
             (map (jobAt uuidv4 (c + 1) (uuidv4 c) prio now) [0..<n]),
           ingestionStore := (ingestionStore s)(uuidv4 c \<mapsto>
             \<lparr>req_status = calculateOverallStatus (Some new), batches = [l..<l + n],
              req_priority = prio, req_createdAt = now, original_ids = items\<rparr>)\<rparr>)"

definition validBody :: "body \<Rightarrow> json list \<Rightarrow> priority \<Rightarrow> bool" where
  "validBody b items prio \<longleftrightarrow>
     body_ids b = Some (JArr items) \<and> items \<noteq> []
     \<and> (\<exists>p. body_priority b = Some (JStr p) \<and> parsePriority (toUpperCase p) = Some prio)"

text \<open>The bodies on which the controller never calls \<open>toUpperCase\<close> on a value that has
  no such method: the priority is absent, not truthy, or a string.\<close>

definition textualPriority :: "body \<Rightarrow> bool" where
  "textualPriority b =
     (case body_priority b of
        None \<Rightarrow> True
      | Some v \<Rightarrow> (case v of JStr p \<Rightarrow> True | _ \<Rightarrow> \<not> truthy v))"

lemma parsePriority_empty: "parsePriority (toUpperCase []) = None"
  by (simp add: parsePriority_def toUpperCase_def utf16_def)

lemma arrayOf_Some_iff: "arrayOf field = Some items \<longleftrightarrow> field = Some (JArr items)"
  by (simp add: arrayOf_def split: option.splits json.splits)

lemma handleIngestRequest_accepted:
  assumes "validBody b items prio"
  shows "handleIngestRequest uuidv4 now b s
      = (Json202 (uuidv4 (uuidCount s)), processQueue now (accepted uuidv4 now items prio s))"
proof -
  from assms obtain p where b: "body_ids b = Some (JArr items)" "items \<noteq> []"
    "body_priority b = Some (JStr p)" "parsePriority (toUpperCase p) = Some prio"
    by (auto simp: validBody_def)
  then have p: "truthy (JStr p)" using parsePriority_empty by (auto simp: truthy_def)
  have nth_new: "map ((!) (xs @ map f [0..<n])) [length xs..<length xs + n] = map f [0..<n]"
    for xs :: "batch list" and f n
    by (rule nth_equalityI) (auto simp: nth_append simp del: upt_Suc)
  show ?thesis
    using b p
    by (simp add: handleIngestRequest_def arrayOf_def processIngestionRequest_def
          splitFrom_result accepted_def Let_def nth_new)
qed

lemma handleIngestRequest_rejected:
  assumes "\<not> (\<exists>items prio. validBody b items prio)"
  shows "snd (handleIngestRequest uuidv4 now b s) = s"
    and "textualPriority b \<Longrightarrow> \<exists>msg. fst (handleIngestRequest uuidv4 now b s) = Json400 msg"
proof -
  show "snd (handleIngestRequest uuidv4 now b s) = s"
    using assms
    by (auto simp: handleIngestRequest_def validBody_def arrayOf_Some_iff
             split: option.splits json.splits)
  show "\<exists>msg. fst (handleIngestRequest uuidv4 now b s) = Json400 msg" if "textualPriority b"
    using assms that
    by (auto simp: handleIngestRequest_def validBody_def arrayOf_Some_iff textualPriority_def
             split: option.splits json.splits)
qed

definition isValidationError :: "response \<Rightarrow> bool" where
  "isValidationError r = (case r of Json400 msg \<Rightarrow> True | _ \<Rightarrow> False)"

lemma parsePriority_None_iff:
  "parsePriority p = None \<longleftrightarrow> p \<notin> {utf16 ''HIGH'', utf16 ''MEDIUM'', utf16 ''LOW''}"
  by (simp add: parsePriority_def)

lemma validBody_iff:
  assumes "textualPriority b"
  shows "(\<exists>items prio. validBody b items prio) \<longleftrightarrow>
     \<not> (arrayOf (body_ids b) = None \<or> arrayOf (body_ids b) = Some []
        \<or> body_priority b = None \<or> (\<exists>v. body_priority b = Some v \<and> \<not> truthy v)
        \<or> (\<exists>p. body_priority b = Some (JStr p)
               \<and> toUpperCase p \<notin> {utf16 ''HIGH'', utf16 ''MEDIUM'', utf16 ''LOW''}))"
proof (cases "body_priority b")
  case None
  then show ?thesis by (simp add: validBody_def)
next
  case (Some v)
  show ?thesis
  proof (cases "\<exists>p. v = JStr p")
    case True
    then obtain p where v: "v = JStr p" by blast
    have e: "p = [] \<Longrightarrow> parsePriority (toUpperCase p) = None"
      using parsePriority_empty by simp
    show ?thesis
    proof (cases "arrayOf (body_ids b)")
      case None
      then have "\<And>items. body_ids b \<noteq> Some (JArr items)"
        using arrayOf_Some_iff [of "body_ids b"] by auto
      with None show ?thesis by (simp add: validBody_def)
    next
      case (Some items)
      then have i: "body_ids b = Some (JArr items)" by (simp add: arrayOf_Some_iff)
      show ?thesis
        unfolding validBody_def parsePriority_None_iff [symmetric]
        using Some i \<open>body_priority b = Some v\<close> v e
        by (cases "parsePriority (toUpperCase p)") (auto simp: truthy_def)
    qed
  next
    case False
    with assms Some have "\<not> truthy v"
      by (auto simp: textualPriority_def split: json.splits)
    with Some False show ?thesis by (auto simp: validBody_def)
  qed
qed

text \<open>The dotless i (U+0131) has the upper-case form \<open>I\<close>, so the priority spelt \<open>h\<close>,
  dotless i, \<open>g\<close>, \<open>h\<close> is accepted as \<open>HIGH\<close>.\<close>

lemma dotless_i_accepted:
  "toUpperCase [104, 305, 103, 104] = utf16 ''HIGH''
   \<and> fst (handleIngestRequest sampleUuid 1700000000000
            \<lparr>body_ids = Some (JArr (numbers [1])),
             body_priority = Some (JStr [104, 305, 103, 104])\<rparr> initialState)
       = Json202 ''id-''"
  by code_simp

text \<open>
  C8, as stated, at the priority \<open>high\<close>: it is not one of \<open>HIGH\<close>, \<open>MEDIUM\<close>, \<open>LOW\<close>,
  and the request is accepted, since the controller compares \<open>priority.toUpperCase()\<close>.
\<close>

theorem C8_lowercase_priority_counterexample:
  "utf16 ''high'' \<notin> {utf16 ''HIGH'', utf16 ''MEDIUM'', utf16 ''LOW''}
   \<and> fst (handleIngestRequest sampleUuid 1700000000000
            \<lparr>body_ids = Some (JArr (numbers [1])),
             body_priority = Some (JStr (utf16 ''high''))\<rparr> initialState)
       = Json202 ''id-''"
  by code_simp

text \<open>
  C8 (amended): for a body whose priority is absent, not truthy or a string,
  \<open>handleIngestRequest\<close> answers with a validation error if and only if \<open>ids\<close> is absent,
  no array or an empty array, or the priority is absent or not truthy (\<open>null\<close>, \<open>false\<close>,
  \<open>0\<close>, the empty string), or the priority in upper case is not one of \<open>HIGH\<close>,
  \<open>MEDIUM\<close>, \<open>LOW\<close>; whenever it answers with a validation error the state, and so the
  store, is unchanged; otherwise it answers 202 with the new identifier, whose record is
  in the store.
\<close>

theorem C8_validation:
  assumes "textualPriority b"
  shows "(isValidationError (fst (handleIngestRequest uuidv4 now b s))
          \<longleftrightarrow> (arrayOf (body_ids b) = None \<or> arrayOf (body_ids b) = Some []
               \<or> body_priority b = None \<or> (\<exists>v. body_priority b = Some v \<and> \<not> truthy v)
               \<or> (\<exists>p. body_priority b = Some (JStr p)
                      \<and> toUpperCase p \<notin> {utf16 ''HIGH'', utf16 ''MEDIUM'', utf16 ''LOW''})))
       \<and> (isValidationError (fst (handleIngestRequest uuidv4 now b s))
          \<longrightarrow> snd (handleIngestRequest uuidv4 now b s) = s)
       \<and> (\<not> isValidationError (fst (handleIngestRequest uuidv4 now b s))
          \<longrightarrow> fst (handleIngestRequest uuidv4 now b s) = Json202 (uuidv4 (uuidCount s))
              \<and> ingestionStore (snd (handleIngestRequest uuidv4 now b s))
                   (uuidv4 (uuidCount s)) \<noteq> None)"
proof (cases "\<exists>items prio. validBody b items prio")
  case True
  then obtain items prio where v: "validBody b items prio" by blast
  have st: "ingestionStore (processQueue now (accepted uuidv4 now items prio s))
      (uuidv4 (uuidCount s)) \<noteq> None"
    by (subst outcome_fields(4) [OF processQueue_outcome]) (simp add: accepted_def Let_def)
  show ?thesis
    using True [unfolded validBody_iff [OF assms]] st
    by (simp add: handleIngestRequest_accepted [OF v] isValidationError_def)
next
  case False
  from handleIngestRequest_rejected [OF False, of uuidv4 now s] assms
  obtain msg where "fst (handleIngestRequest uuidv4 now b s) = Json400 msg"
    "snd (handleIngestRequest uuidv4 now b s) = s"
    by blast
  then show ?thesis
    using False [unfolded validBody_iff [OF assms]] by (simp add: isValidationError_def)
qed

theorem C8_validation_witness:
  "isValidationError (fst (handleIngestRequest sampleUuid 1700000000000
       \<lparr>body_ids = Some (JArr (numbers [1])),
        body_priority = Some (JStr (utf16 ''URGENT''))\<rparr> initialState))
   \<and> snd (handleIngestRequest sampleUuid 1700000000000
       \<lparr>body_ids = Some (JArr (numbers [1])),
        body_priority = Some (JStr (utf16 ''URGENT''))\<rparr> initialState) = initialState"
proof -
  have h: "textualPriority \<lparr>body_ids = Some (JArr (numbers [1])),
      body_priority = Some (JStr (utf16 ''URGENT''))\<rparr>"
    by (simp add: textualPriority_def)
  have u: "toUpperCase (utf16 ''URGENT'') \<notin> {utf16 ''HIGH'', utf16 ''MEDIUM'', utf16 ''LOW''}"
    by code_simp
  from C8_validation [OF h, of sampleUuid 1700000000000 initialState] u
  show ?thesis by simp
qed

section \<open>The status query\<close>

lemma getIngestionStatus_found:
  assumes "ingestionStore s ingId = Some r"
  shows "getIngestionStatus ingId s =
     Json200 \<lparr>ingestion_id = ingId,
       response_status = calculateOverallStatus (Some (map (\<lambda>a. batchObjects s ! a) (batches r))),
       response_batches = map (\<lambda>a. batchObjects s ! a) (batches r)\<rparr>"
  using assms by (simp add: getIngestionStatus_def storeGet_def Let_def)

lemma getIngestionStatus_404_iff:
  "(\<exists>msg. getIngestionStatus ingId s = Json404 msg)
     \<longleftrightarrow> ingestionStore s ingId = None \<and> ingId \<notin> set objectPrototypeKeys"
  by (auto simp: getIngestionStatus_def storeGet_def Let_def split: option.splits)

text \<open>
  C9, at the identifier \<open>constructor\<close>: no request has it, and the status query does not
  answer 404: the store's read returns \<open>Object.prototype.constructor\<close>, the guard
  \<open>!requestData\<close> lets it pass, and \<open>requestData.batches.map\<close> throws.
\<close>

theorem C9_inherited_key_is_no_404:
  "ingestionStore initialState ''constructor'' = None
   \<and> getIngestionStatus ''constructor'' initialState = Error500 ''Something broke!''"
  by (simp add: getIngestionStatus_def storeGet_def initialState_def objectPrototypeKeys_def
        somethingBroke_def)


section \<open>The state at the response\<close>

text \<open>The statuses of the batches of a request, in order.\<close>

definition requestStatuses :: "state \<Rightarrow> string \<Rightarrow> status list" where
  "requestStatuses s ingId =
     (case ingestionStore s ingId of
        None \<Rightarrow> []
      | Some r \<Rightarrow> map (\<lambda>a. status (batchObjects s ! a)) (batches r))"

lemma status_chunkAt [simp]: "status (chunkAt uuidv4 c items i k) = yet_to_start"
  by (simp add: chunkAt_def)

lemma requestStatuses_accepted:
  "requestStatuses (accepted uuidv4 now items prio s) (uuidv4 (uuidCount s))
     = replicate (chunkCount items 0) yet_to_start"
  by (rule nth_equalityI)
     (auto simp: requestStatuses_def accepted_def Let_def nth_append simp del: upt_Suc)

lemma handleIngestRequest_not_accepted:
  assumes "\<not> (\<exists>items prio. validBody b items prio)"
  shows "fst (handleIngestRequest uuidv4 now b s) \<noteq> Json202 ingId"
  using assms
  by (auto simp: handleIngestRequest_def validBody_def arrayOf_Some_iff
           split: option.splits json.splits)

lemma length_filter_eq_distinct:
  "distinct xs \<Longrightarrow> length (filter (\<lambda>i. i = a) xs) \<le> 1"
  by (induction xs) (auto simp: filter_empty_conv)

lemma requestStatuses_after_accept:
  fixes uuidv4 now items prio s
  defines "s2 \<equiv> accepted uuidv4 now items prio s"
  defines "l \<equiv> length (batchObjects s)" and "n \<equiv> chunkCount items 0"
  shows "requestStatuses (processQueue now s2) (uuidv4 (uuidCount s))
           = replicate n yet_to_start
       \<or> (\<exists>a. requestStatuses (processQueue now s2) (uuidv4 (uuidCount s))
             = map (\<lambda>i. if i = a then triggered else yet_to_start) [l..<l + n])"
proof -
  have st: "ingestionStore (processQueue now s2) = ingestionStore s2"
    by (rule outcome_fields(4) [OF processQueue_outcome])
  have refs: "ingestionStore s2 (uuidv4 (uuidCount s)) = Some
       \<lparr>req_status = calculateOverallStatus
           (Some (map (chunkAt uuidv4 (uuidCount s + 1) items 0) [0..<n])),
        batches = [l..<l + n], req_priority = prio, req_createdAt = now,
        original_ids = items\<rparr>"
    by (simp add: s2_def accepted_def Let_def l_def n_def)
  have objs: "batchObjects s2
      = batchObjects s @ map (chunkAt uuidv4 (uuidCount s + 1) items 0) [0..<n]"
    by (simp add: s2_def accepted_def Let_def n_def)
  have fresh: "status (batchObjects s2 ! i) = yet_to_start" if "l \<le> i" "i < l + n" for i
    using that by (simp add: objs nth_append l_def)
  from processQueue_outcome [of s2 now] show ?thesis
  proof
    assume "idles s2 (processQueue now s2)"
    then have "batchObjects (processQueue now s2) = batchObjects s2" by (simp add: idles_def)
    then have "requestStatuses (processQueue now s2) (uuidv4 (uuidCount s))
        = replicate n yet_to_start"
      by (intro nth_equalityI) (auto simp: requestStatuses_def st refs fresh simp del: upt_Suc)
    then show ?thesis ..
  next
    assume "\<exists>a. admits now s2 (processQueue now s2) a"
    then obtain a where a: "batchObjects (processQueue now s2)
        = (batchObjects s2)[a := (batchObjects s2 ! a)\<lparr>status := triggered\<rparr>]"
      by (auto simp: admits_def)
    have "requestStatuses (processQueue now s2) (uuidv4 (uuidCount s))
        = map (\<lambda>i. if i = a then triggered else yet_to_start) [l..<l + n]"
      by (intro nth_equalityI)
         (auto simp: requestStatuses_def st refs a fresh nth_list_update objs l_def
               simp del: upt_Suc)
    then show ?thesis by blast
  qed
qed

text \<open>
  C2, as stated, at the first request of a process: when the response is produced its
  first batch is \<open>triggered\<close> already, since \<open>processIngestionRequest\<close> calls
  \<open>processQueue\<close> before the controller sends the response.
\<close>

theorem C2_first_batch_counterexample:
  "fst (handleIngestRequest sampleUuid 1700000000000
          \<lparr>body_ids = Some (JArr (numbers [1, 2, 3, 4])), body_priority = Some (JStr (utf16 ''MEDIUM''))\<rparr> initialState)
     = Json202 ''id-''
   \<and> requestStatuses
       (snd (handleIngestRequest sampleUuid 1700000000000
          \<lparr>body_ids = Some (JArr (numbers [1, 2, 3, 4])), body_priority = Some (JStr (utf16 ''MEDIUM''))\<rparr> initialState))
       ''id-'' = [triggered, yet_to_start]"
  by code_simp

text \<open>
  C2 (amended): for every accepted submission, at the moment the response is produced the
  request has at least one batch, every batch of the request is \<open>yet_to_start\<close> or
  \<open>triggered\<close>, and at most one of them is \<open>triggered\<close>.
\<close>

theorem C2_statuses_at_response:
  assumes "handleIngestRequest uuidv4 now b s = (Json202 ingId, s')"
  shows "requestStatuses s' ingId \<noteq> []
       \<and> set (requestStatuses s' ingId) \<subseteq> {yet_to_start, triggered}
       \<and> length (filter (\<lambda>st. st = triggered) (requestStatuses s' ingId)) \<le> 1"
proof -
  have "\<exists>items prio. validBody b items prio"
    using assms handleIngestRequest_not_accepted [of b uuidv4 now s ingId] by auto
  then obtain items prio where v: "validBody b items prio" by blast
  from assms have ingId: "ingId = uuidv4 (uuidCount s)"
    and s': "s' = processQueue now (accepted uuidv4 now items prio s)"
    by (simp_all add: handleIngestRequest_accepted [OF v])
  have n: "0 < chunkCount items 0"
    using v chunkCount_0_iff [of items 0] by (auto simp: validBody_def)
  from requestStatuses_after_accept [of now uuidv4 items prio s]
  show ?thesis
  proof
    assume "requestStatuses (processQueue now (accepted uuidv4 now items prio s))
        (uuidv4 (uuidCount s)) = replicate (chunkCount items 0) yet_to_start"
    then show ?thesis using n by (simp add: ingId s')
  next
    assume "\<exists>a. requestStatuses (processQueue now (accepted uuidv4 now items prio s))
        (uuidv4 (uuidCount s))
        = map (\<lambda>i. if i = a then triggered else yet_to_start)
            [length (batchObjects s)..<length (batchObjects s) + chunkCount items 0]"
    then obtain a where a: "requestStatuses s' ingId
        = map (\<lambda>i. if i = a then triggered else yet_to_start)
            [length (batchObjects s)..<length (batchObjects s) + chunkCount items 0]"
      by (auto simp: ingId s')
    have "length (filter (\<lambda>st. st = triggered) (requestStatuses s' ingId))
        = length (filter (\<lambda>i. i = a)
              [length (batchObjects s)..<length (batchObjects s) + chunkCount items 0])"
      by (simp add: a filter_map comp_def)
    then have "length (filter (\<lambda>st. st = triggered) (requestStatuses s' ingId)) \<le> 1"
      using length_filter_eq_distinct
        [of "[length (batchObjects s)..<length (batchObjects s) + chunkCount items 0]" a]
      by simp
    then show ?thesis using n by (auto simp: a)
  qed
qed

theorem C2_statuses_at_response_witness:
  "requestStatuses
       (snd (handleIngestRequest sampleUuid 1700000000000
          \<lparr>body_ids = Some (JArr (numbers [1, 2, 3, 4])), body_priority = Some (JStr (utf16 ''MEDIUM''))\<rparr> initialState))
       ''id-'' \<noteq> []
   \<and> set (requestStatuses
       (snd (handleIngestRequest sampleUuid 1700000000000
          \<lparr>body_ids = Some (JArr (numbers [1, 2, 3, 4])), body_priority = Some (JStr (utf16 ''MEDIUM''))\<rparr> initialState))
       ''id-'') \<subseteq> {yet_to_start, triggered}"
proof -
  have h: "handleIngestRequest sampleUuid 1700000000000
          \<lparr>body_ids = Some (JArr (numbers [1, 2, 3, 4])), body_priority = Some (JStr (utf16 ''MEDIUM''))\<rparr> initialState
      = (Json202 ''id-'', snd (handleIngestRequest sampleUuid 1700000000000
          \<lparr>body_ids = Some (JArr (numbers [1, 2, 3, 4])), body_priority = Some (JStr (utf16 ''MEDIUM''))\<rparr> initialState))"
    by (rule prod_eqI) (simp_all, code_simp)
  from C2_statuses_at_response [OF h] show ?thesis by simp
qed

section \<open>Steps of the system\<close>

text \<open>
  Every handler does some bookkeeping and then calls \<open>processQueue\<close> once, or changes
  nothing. \<open>prepared s pre\<close> says what the bookkeeping can do: it leaves
  \<open>lastProcessingStartTime\<close> alone, keeps the batch objects there are, and changes the
  status of none of them except from \<open>triggered\<close> to \<open>completed\<close>; a new object is
  \<open>yet_to_start\<close>.
\<close>

definition prepared :: "state \<Rightarrow> state \<Rightarrow> bool" where
  "prepared s pre \<longleftrightarrow>
     lastProcessingStartTime pre = lastProcessingStartTime s
     \<and> length (batchObjects s) \<le> length (batchObjects pre)
     \<and> (\<forall>a < length (batchObjects s).
           status (batchObjects pre ! a) = status (batchObjects s ! a)
           \<or> status (batchObjects pre ! a) = completed)
     \<and> (\<forall>a < length (batchObjects pre). length (batchObjects s) \<le> a
           \<longrightarrow> status (batchObjects pre ! a) = yet_to_start)"

lemma awaitEach_printable: "awaitEach xs \<longleftrightarrow> list_all printable xs"
  by (induction xs) (simp_all add: simulateApiCall_def)

lemma processSingleBatch_cases:
  "processSingleBatch b
     = (if list_all printable (ids b) then Fulfilled (b\<lparr>status := completed\<rparr>)
        else Thrown TypeError)"
  by (simp add: processSingleBatch_def awaitEach_printable)

text \<open>The state after the promise has settled, field by field.\<close>

lemma settled_fields [simp]:
  "ingestionStore (settled a s) = ingestionStore s"
  "jobQueue (settled a s) = jobQueue s"
  "processingTimeoutId (settled a s) = processingTimeoutId s"
  "lastProcessingStartTime (settled a s) = lastProcessingStartTime s"
  "pendingTimers (settled a s) = pendingTimers s"
  "timerCount (settled a s) = timerCount s"
  "uuidCount (settled a s) = uuidCount s"
  "inFlight (settled a s) = remove1 a (inFlight s)"
  "length (batchObjects (settled a s)) = length (batchObjects s)"
  by (simp_all add: settled_def processSingleBatch_cases)

lemma settled_objects:
  "batchObjects (settled a s)
     = (if list_all printable (ids (batchObjects s ! a))
        then (batchObjects s)[a := (batchObjects s ! a)\<lparr>status := completed\<rparr>]
        else batchObjects s)"
  by (simp add: settled_def processSingleBatch_cases)

lemma status_update_nth:
  "status (xs[a := (xs ! a)\<lparr>status := t\<rparr>] ! i)
     = (if i = a \<and> a < length xs then t else status (xs ! i))"
  by (cases "a < length xs") (simp_all add: nth_list_update list_update_beyond)

lemma prepared_accepted: "prepared s (accepted uuidv4 now items prio s)"
  by (auto simp: prepared_def accepted_def Let_def nth_append)

subsection \<open>Reachable states\<close>

text \<open>
  What holds of the batch objects in every state the system reaches: a record refers to
  objects that exist; a batch is in flight at most once, and the batches in flight are
  \<open>triggered\<close>; no batch is \<open>failed\<close>.
\<close>

definition wellFormed :: "state \<Rightarrow> bool" where
  "wellFormed s \<longleftrightarrow>
     (\<forall>ingId r. ingestionStore s ingId = Some r
        \<longrightarrow> (\<forall>a \<in> set (batches r). a < length (batchObjects s)))
     \<and> distinct (inFlight s)
     \<and> (\<forall>a \<in> set (inFlight s).
          a < length (batchObjects s) \<and> status (batchObjects s ! a) = triggered)
     \<and> (\<forall>b \<in> set (batchObjects s). status b \<noteq> failed)"

lemma wellFormed_initialState: "wellFormed initialState"
  by (simp add: wellFormed_def initialState_def)

lemma wellFormed_accepted:
  assumes "wellFormed s"
  shows "wellFormed (accepted uuidv4 now items prio s)"
proof -
  have refs: "\<forall>a \<in> set (batches r). a < length (batchObjects s)"
    if "ingestionStore s ingId = Some r" for ingId r
    using assms that unfolding wellFormed_def by blast
  show ?thesis
    unfolding wellFormed_def
  proof (intro conjI allI impI ballI)
    fix ingId r a
    assume "ingestionStore (accepted uuidv4 now items prio s) ingId = Some r"
      and "a \<in> set (batches r)"
    then show "a < length (batchObjects (accepted uuidv4 now items prio s))"
      using refs [of ingId r]
      by (auto simp: accepted_def Let_def split: if_splits)
  next
    show "distinct (inFlight (accepted uuidv4 now items prio s))"
      using assms by (simp add: accepted_def Let_def wellFormed_def)
  next
    fix a
    assume "a \<in> set (inFlight (accepted uuidv4 now items prio s))"
    then have "a < length (batchObjects s) \<and> status (batchObjects s ! a) = triggered"
      using assms unfolding wellFormed_def by (simp add: accepted_def Let_def)
    then show "a < length (batchObjects (accepted uuidv4 now items prio s))"
      and "status (batchObjects (accepted uuidv4 now items prio s) ! a) = triggered"
      by (auto simp: accepted_def Let_def nth_append)
  next
    fix b
    assume "b \<in> set (batchObjects (accepted uuidv4 now items prio s))"
    then show "status b \<noteq> failed"
      using assms by (auto simp: accepted_def Let_def wellFormed_def)
  qed
qed

lemma wellFormed_settled:
  assumes "wellFormed s" and "a \<in> set (inFlight s)"
  shows "wellFormed (settled a s)"
proof -
  have d: "distinct (inFlight s)" using assms(1) by (simp add: wellFormed_def)
  have fl: "x < length (batchObjects s) \<and> status (batchObjects s ! x) = triggered"
    if "x \<in> set (inFlight s)" for x
    using assms(1) that unfolding wellFormed_def by blast
  have nf: "\<forall>b \<in> set (batchObjects s). status b \<noteq> failed"
    using assms(1) by (simp add: wellFormed_def)
  show ?thesis
    unfolding wellFormed_def
  proof (intro conjI allI impI ballI)
    fix ingId r x
    assume "ingestionStore (settled a s) ingId = Some r" and "x \<in> set (batches r)"
    then show "x < length (batchObjects (settled a s))"
      using assms(1) unfolding wellFormed_def by simp
  next
    show "distinct (inFlight (settled a s))"
      using d by simp
  next
    fix x
    assume "x \<in> set (inFlight (settled a s))"
    then have x: "x \<in> set (inFlight s)" "x \<noteq> a" using d by simp_all
    show "x < length (batchObjects (settled a s))"
      using fl [OF x(1)] by simp
    show "status (batchObjects (settled a s) ! x) = triggered"
      using fl [OF x(1)] x(2) by (simp add: settled_objects)
  next
    fix b
    assume "b \<in> set (batchObjects (settled a s))"
    then have "b \<in> set (batchObjects s) \<or> b = (batchObjects s ! a)\<lparr>status := completed\<rparr>"
      using set_update_subset_insert [of "batchObjects s" a]
      by (auto simp: settled_objects split: if_splits)
    then show "status b \<noteq> failed" using nf by auto
  qed
qed

lemma settled_status:
  "status (batchObjects (settled a s) ! x) = status (batchObjects s ! x)
   \<or> x = a \<and> status (batchObjects (settled a s) ! x) = completed"
  by (auto simp: settled_objects status_update_nth)

subsection \<open>One step\<close>

lemma step_decompose:
  "step uuidv4 now ev s = s
   \<or> (\<exists>pre. prepared s pre \<and> step uuidv4 now ev s = processQueue now pre
          \<and> (wellFormed s \<longrightarrow> wellFormed pre
                \<and> (\<forall>a < length (batchObjects s).
                      status (batchObjects pre ! a) = status (batchObjects s ! a)
                      \<or> status (batchObjects s ! a) = triggered)))"
proof (cases ev)
  case (PostIngest b)
  show ?thesis
  proof (cases "\<exists>items prio. validBody b items prio")
    case True
    then obtain items prio where "validBody b items prio" by blast
    then have "step uuidv4 now ev s = processQueue now (accepted uuidv4 now items prio s)"
      by (simp add: PostIngest handleIngestRequest_accepted)
    moreover have "\<forall>a < length (batchObjects s).
        status (batchObjects (accepted uuidv4 now items prio s) ! a)
          = status (batchObjects s ! a)"
      by (simp add: accepted_def Let_def nth_append)
    ultimately show ?thesis using prepared_accepted wellFormed_accepted by blast
  next
    case False
    then show ?thesis by (simp add: PostIngest handleIngestRequest_rejected(1))
  qed
next
  case (GetStatus ingId)
  then show ?thesis by simp
next
  case (TimerFired h)
  show ?thesis
  proof (cases "h \<in> fst ` set (pendingTimers s)")
    case True
    let ?pre = "s\<lparr>pendingTimers := filter (\<lambda>p. fst p \<noteq> h) (pendingTimers s)\<rparr>"
    have "prepared s ?pre"
      by (simp add: prepared_def)
    moreover have "wellFormed s \<longrightarrow> wellFormed ?pre"
      by (simp add: wellFormed_def)
    moreover have "step uuidv4 now ev s = processQueue now ?pre"
      using True by (simp add: TimerFired onTimer_def)
    ultimately show ?thesis by auto
  next
    case False
    then show ?thesis by (simp add: TimerFired onTimer_def)
  qed
next
  case (BatchSettled a)
  show ?thesis
  proof (cases "a \<in> set (inFlight s)")
    case True
    let ?pre = "settled a s"
    have "prepared s ?pre"
      using settled_status [of a s] by (simp add: prepared_def) blast
    moreover have "wellFormed s \<longrightarrow> wellFormed ?pre"
      using True wellFormed_settled by blast
    moreover have "\<forall>x < length (batchObjects s).
        status (batchObjects ?pre ! x) = status (batchObjects s ! x)
        \<or> status (batchObjects s ! x) = triggered" if "wellFormed s"
    proof (intro allI impI)
      fix x
      have "status (batchObjects s ! a) = triggered"
        using that True by (auto simp: wellFormed_def)
      then show "status (batchObjects ?pre ! x) = status (batchObjects s ! x)
          \<or> status (batchObjects s ! x) = triggered"
        using settled_status [of a s x] by auto
    qed
    moreover have "step uuidv4 now ev s = processQueue now ?pre"
      using True by (simp add: BatchSettled onBatchSettled_def)
    ultimately show ?thesis by blast
  next
    case False
    then show ?thesis by (simp add: BatchSettled onBatchSettled_def)
  qed
qed

lemma length_filter_le_1:
  "distinct xs \<Longrightarrow> (\<And>x. x \<in> set xs \<Longrightarrow> P x \<Longrightarrow> x = a) \<Longrightarrow> length (filter P xs) \<le> 1"
proof (induction xs)
  case Nil
  then show ?case by simp
next
  case (Cons x xs)
  show ?case
  proof (cases "P x")
    case True
    then have xa: "x = a" using Cons.prems(2) [of x] by simp
    have "\<not> P y" if "y \<in> set xs" for y
    proof
      assume "P y"
      then have "y = a" using Cons.prems(2) [of y] that by simp
      then show False using xa Cons.prems(1) that by simp
    qed
    then have "filter P xs = []" by (simp add: filter_empty_conv)
    then show ?thesis using True by simp
  next
    case False
    have "length (filter P xs) \<le> 1"
      using Cons.prems by (intro Cons.IH) simp_all
    then show ?thesis using False by simp
  qed
qed

lemma started_self: "started s s = []"
  by (auto simp: started_def filter_empty_conv)

lemma started_processQueue:
  assumes "prepared s pre"
  shows "length (started s (processQueue now pre)) \<le> 1"
    and "started s (processQueue now pre) \<noteq> []
           \<Longrightarrow> lastProcessingStartTime (processQueue now pre) = now
               \<and> RATE_LIMIT_MS \<le> now - lastProcessingStartTime s"
    and "lastProcessingStartTime (processQueue now pre) = lastProcessingStartTime s
         \<or> lastProcessingStartTime (processQueue now pre) = now
            \<and> RATE_LIMIT_MS \<le> now - lastProcessingStartTime s"
proof -
  define s' where "s' = processQueue now pre"
  have last: "lastProcessingStartTime pre = lastProcessingStartTime s"
    using assms by (simp add: prepared_def)
  have old: "a < length (batchObjects s) \<and> status (batchObjects s ! a) = triggered"
    if "a < length (batchObjects pre)" "status (batchObjects pre ! a) = triggered" for a
  proof -
    have "\<not> length (batchObjects s) \<le> a"
      using assms that by (auto simp: prepared_def)
    then have lt: "a < length (batchObjects s)" by simp
    then have "status (batchObjects pre ! a) = status (batchObjects s ! a)
        \<or> status (batchObjects pre ! a) = completed"
      using assms by (simp add: prepared_def)
    then show ?thesis using lt that(2) by auto
  qed
  have not_started: "\<not> (status (batchObjects s' ! x) = triggered
           \<and> (x < length (batchObjects s) \<longrightarrow> status (batchObjects s ! x) = yet_to_start))"
    if "x < length (batchObjects s')" "batchObjects s' ! x = batchObjects pre ! x"
      "length (batchObjects s') = length (batchObjects pre)" for x
  proof
    assume a: "status (batchObjects s' ! x) = triggered
           \<and> (x < length (batchObjects s) \<longrightarrow> status (batchObjects s ! x) = yet_to_start)"
    then have "x < length (batchObjects pre)" "status (batchObjects pre ! x) = triggered"
      using that by simp_all
    from old [OF this] show False using a by simp
  qed
  have idle: "started s s' = []" if "idles pre s'"
  proof -
    have eq: "batchObjects s' = batchObjects pre" using that by (simp add: idles_def)
    show ?thesis
      unfolding started_def filter_empty_conv
    proof
      fix x assume "x \<in> set [0..<length (batchObjects s')]"
      then have "x < length (batchObjects s')" by simp
      then show "\<not> (status (batchObjects s' ! x) = triggered
           \<and> (x < length (batchObjects s) \<longrightarrow> status (batchObjects s ! x) = yet_to_start))"
        by (rule not_started) (simp_all add: eq)
    qed
  qed
  have admit: "length (started s s') \<le> 1" if "admits now pre s' a0" for a0
  proof -
    have eq: "batchObjects s'
        = (batchObjects pre)[a0 := (batchObjects pre ! a0)\<lparr>status := triggered\<rparr>]"
      using that by (simp add: admits_def)
    show ?thesis
      unfolding started_def
    proof (rule length_filter_le_1 [where a = a0])
      show "distinct [0..<length (batchObjects s')]" by simp
    next
      fix x
      assume x: "x \<in> set [0..<length (batchObjects s')]"
        and st: "status (batchObjects s' ! x) = triggered
           \<and> (x < length (batchObjects s) \<longrightarrow> status (batchObjects s ! x) = yet_to_start)"
      show "x = a0"
      proof (rule ccontr)
        assume "x \<noteq> a0"
        then have "batchObjects s' ! x = batchObjects pre ! x" by (simp add: eq)
        moreover have "x < length (batchObjects s')" using x by simp
        moreover have "length (batchObjects s') = length (batchObjects pre)" by (simp add: eq)
        ultimately show False using not_started [of x] st by blast
      qed
    qed
  qed
  have out: "idles pre s' \<or> (\<exists>a. admits now pre s' a)"
    unfolding s'_def by (rule processQueue_outcome)
  show "length (started s (processQueue now pre)) \<le> 1"
    using out idle admit unfolding s'_def [symmetric] by auto
  show "lastProcessingStartTime (processQueue now pre) = lastProcessingStartTime s
         \<or> lastProcessingStartTime (processQueue now pre) = now
            \<and> RATE_LIMIT_MS \<le> now - lastProcessingStartTime s"
    using out last unfolding s'_def [symmetric] by (auto simp: idles_def admits_def)
  show "lastProcessingStartTime (processQueue now pre) = now
      \<and> RATE_LIMIT_MS \<le> now - lastProcessingStartTime s"
    if "started s (processQueue now pre) \<noteq> []"
    using out idle that last unfolding s'_def [symmetric] by (auto simp: admits_def)
qed

text \<open>Successive readings at least the interval apart, the first one from \<open>t0\<close>.\<close>

fun spaced :: "int \<Rightarrow> int list \<Rightarrow> bool" where
  "spaced t0 [] = True"
| "spaced t0 (t # ts) = (RATE_LIMIT_MS \<le> t - t0 \<and> spaced t ts)"

lemma spaced_mono: "spaced t0 ts \<Longrightarrow> t1 \<le> t0 \<Longrightarrow> spaced t1 ts"
  by (cases ts) auto

lemma spaced_lower: "spaced t0 ts \<Longrightarrow> t \<in> set ts \<Longrightarrow> RATE_LIMIT_MS \<le> t - t0"
proof (induction ts arbitrary: t0)
  case Nil
  then show ?case by simp
next
  case (Cons x xs)
  show ?case
  proof (cases "t = x")
    case True
    then show ?thesis using Cons.prems by simp
  next
    case False
    then have "RATE_LIMIT_MS \<le> t - x" using Cons by simp
    moreover have "RATE_LIMIT_MS \<le> x - t0" using Cons.prems by simp
    ultimately show ?thesis by (simp add: RATE_LIMIT_MS_def)
  qed
qed

lemma spaced_nth:
  "spaced t0 ts \<Longrightarrow> i < j \<Longrightarrow> j < length ts \<Longrightarrow> RATE_LIMIT_MS \<le> ts ! j - ts ! i"
proof (induction ts arbitrary: t0 i j)
  case Nil
  then show ?case by simp
next
  case (Cons t ts)
  show ?case
  proof (cases i)
    case 0
    then obtain j' where j': "j = Suc j'" using Cons.prems(2) by (cases j) auto
    then have "ts ! j' \<in> set ts" using Cons.prems(3) by simp
    then show ?thesis using spaced_lower [of t ts] Cons.prems(1) 0 j' by simp
  next
    case (Suc i')
    then obtain j' where j': "j = Suc j'" using Cons.prems(2) by (cases j) auto
    then show ?thesis using Cons.IH [of t i' j'] Cons.prems Suc by simp
  qed
qed

lemma spaced_admissionTimes:
  "spaced (lastProcessingStartTime s) (admissionTimes uuidv4 evs s)"
proof (induction evs arbitrary: s)
  case Nil
  then show ?case by simp
next
  case (Cons e evs)
  obtain now ev where e: "e = (now, ev)" by (cases e)
  let ?s' = "step uuidv4 now ev s"
  note IH = Cons.IH [of ?s']
  from step_decompose [of uuidv4 now ev s]
  consider (same) "?s' = s"
    | (queue) pre where "prepared s pre" "?s' = processQueue now pre"
    by blast
  then show ?case
  proof cases
    case same
    then show ?thesis using IH by (simp add: e started_self)
  next
    case pre: queue
    note facts = started_processQueue [OF pre(1), of now, folded pre(2)]
    show ?thesis
    proof (cases "started s ?s'")
      case Nil
      have "lastProcessingStartTime s \<le> lastProcessingStartTime ?s'"
        using facts(3) by (auto simp: RATE_LIMIT_MS_def)
      then show ?thesis using IH Nil by (simp add: e spaced_mono)
    next
      case (Cons a as)
      then have "as = []" using facts(1) by simp
      then show ?thesis using IH Cons facts(2) by (simp add: e)
    qed
  qed
qed

lemma wellFormed_processQueue:
  assumes "wellFormed s"
  shows "wellFormed (processQueue now s)"
proof -
  define s' where "s' = processQueue now s"
  have out: "idles s s' \<or> (\<exists>a. admits now s s' a)"
    unfolding s'_def by (rule processQueue_outcome)
  then have "wellFormed s'"
  proof
    assume "idles s s'"
    then show ?thesis using assms by (simp add: idles_def wellFormed_def)
  next
    assume "\<exists>a. admits now s s' a"
    then obtain a where ad: "admits now s s' a" ..
    then obtain j :: job and r
      where r: "ingestionStore s (ingestionId j) = Some r" "a \<in> set (batches r)"
      by (auto simp: admits_def)
    then have a: "a < length (batchObjects s)"
      using assms unfolding wellFormed_def by blast
    have yts: "status (batchObjects s ! a) = yet_to_start" using ad by (simp add: admits_def)
    have fl: "x < length (batchObjects s) \<and> status (batchObjects s ! x) = triggered"
      if "x \<in> set (inFlight s)" for x
      using assms that unfolding wellFormed_def by blast
    have objs: "batchObjects s'
        = (batchObjects s)[a := (batchObjects s ! a)\<lparr>status := triggered\<rparr>]"
      and infl: "inFlight s' = inFlight s @ [a]"
      and store: "ingestionStore s' = ingestionStore s"
      using ad by (simp_all add: admits_def)
    show ?thesis
      unfolding wellFormed_def
    proof (intro conjI allI impI)
      fix ingId r'
      assume "ingestionStore s' ingId = Some r'"
      then show "\<forall>x \<in> set (batches r'). x < length (batchObjects s')"
        using assms unfolding wellFormed_def store objs by simp
    next
      have "a \<notin> set (inFlight s)" using fl [of a] yts by auto
      then show "distinct (inFlight s')"
        using assms by (simp add: infl wellFormed_def)
    next
      show "\<forall>x \<in> set (inFlight s').
          x < length (batchObjects s') \<and> status (batchObjects s' ! x) = triggered"
        using fl a by (auto simp: infl objs status_update_nth)
    next
      show "\<forall>b \<in> set (batchObjects s'). status b \<noteq> failed"
      proof
        fix b
        assume "b \<in> set (batchObjects s')"
        then have "b \<in> set (batchObjects s) \<or> b = (batchObjects s ! a)\<lparr>status := triggered\<rparr>"
          using set_update_subset_insert [of "batchObjects s" a] by (auto simp: objs)
        then show "status b \<noteq> failed" using assms by (auto simp: wellFormed_def)
      qed
    qed
  qed
  then show ?thesis by (simp add: s'_def)
qed

lemma wellFormed_step:
  assumes "wellFormed s"
  shows "wellFormed (step uuidv4 now ev s)"
proof (cases ev)
  case (PostIngest b)
  show ?thesis
  proof (cases "\<exists>items prio. validBody b items prio")
    case True
    then obtain items prio where "validBody b items prio" by blast
    then have "step uuidv4 now ev s = processQueue now (accepted uuidv4 now items prio s)"
      by (simp add: PostIngest handleIngestRequest_accepted)
    then show ?thesis
      using wellFormed_processQueue [OF wellFormed_accepted [OF assms]] by simp
  next
    case False
    then show ?thesis using assms by (simp add: PostIngest handleIngestRequest_rejected(1))
  qed
next
  case (GetStatus ingId)
  then show ?thesis using assms by simp
next
  case (TimerFired h)
  have "wellFormed (s\<lparr>pendingTimers := filter (\<lambda>p. fst p \<noteq> h) (pendingTimers s)\<rparr>)"
    using assms by (simp add: wellFormed_def)
  then show ?thesis
    using assms wellFormed_processQueue by (simp add: TimerFired onTimer_def)
next
  case (BatchSettled a)
  then show ?thesis
    using assms wellFormed_processQueue [OF wellFormed_settled [OF assms]]
    by (simp add: onBatchSettled_def)
qed

lemma wellFormed_run: "wellFormed s \<Longrightarrow> wellFormed (run uuidv4 evs s)"
  by (induction evs arbitrary: s) (auto simp: wellFormed_step)


lemma wellFormed_reachable: "wellFormed (run uuidv4 evs initialState)"
  by (simp add: wellFormed_run wellFormed_initialState)

lemma run_append: "run uuidv4 (evs @ evs') s = run uuidv4 evs' (run uuidv4 evs s)"
  by (induction evs arbitrary: s) auto

section \<open>The rate limit\<close>

text \<open>A job whose batch \<open>processQueue\<close> does not find, or finds in a status other than
  \<open>yet_to_start\<close>.\<close>

definition stale :: "state \<Rightarrow> job \<Rightarrow> bool" where
  "stale s j \<longleftrightarrow>
     (case findBatch s j of
        None \<Rightarrow> True
      | Some a \<Rightarrow> status (batchObjects s ! a) \<noteq> yet_to_start)"

lemma processQueue_discards:
  assumes "jobQueue s \<noteq> []" and "RATE_LIMIT_MS \<le> now - lastProcessingStartTime s"
    and "fst (dequeue (jobQueue s)) = Some j" and "stale s j"
  shows "processQueue now s = processQueue now (s\<lparr>jobQueue := snd (dequeue (jobQueue s))\<rparr>)"
  using assms
  by (subst processQueue.simps) (auto simp: stale_def split: option.splits)

lemma started_nonempty:
  assumes "prepared s pre" and "wellFormed pre" and "admits now pre s' a"
  shows "started s s' \<noteq> []"
proof -
  obtain j :: job and r
    where "ingestionStore pre (ingestionId j) = Some r" "a \<in> set (batches r)"
    using assms(3) by (auto simp: admits_def)
  then have a: "a < length (batchObjects pre)"
    using assms(2) unfolding wellFormed_def by blast
  have objs: "batchObjects s'
      = (batchObjects pre)[a := (batchObjects pre ! a)\<lparr>status := triggered\<rparr>]"
    and yts: "status (batchObjects pre ! a) = yet_to_start"
    using assms(3) by (simp_all add: admits_def)
  have "status (batchObjects s ! a) = yet_to_start" if "a < length (batchObjects s)"
    using assms(1) that yts unfolding prepared_def by (metis status.distinct(3))
  then have "a \<in> set (started s s')"
    using a by (simp add: started_def objs)
  then show ?thesis by auto
qed

lemma step_without_start:
  assumes "wellFormed s" and "started s (step uuidv4 now ev s) = []"
  shows "lastProcessingStartTime (step uuidv4 now ev s) = lastProcessingStartTime s"
proof -
  from step_decompose [of uuidv4 now ev s] assms(1)
  consider (same) "step uuidv4 now ev s = s"
    | (queue) pre where "prepared s pre" "step uuidv4 now ev s = processQueue now pre"
        "wellFormed pre"
    by blast
  then show ?thesis
  proof cases
    case same
    then show ?thesis by simp
  next
    case queue
    from processQueue_outcome [of pre now] show ?thesis
    proof
      assume "idles pre (processQueue now pre)"
      then show ?thesis using queue(1,2) by (simp add: idles_def prepared_def)
    next
      assume "\<exists>a. admits now pre (processQueue now pre) a"
      then obtain a where "admits now pre (processQueue now pre) a" ..
      from started_nonempty [OF queue(1,3) this] show ?thesis
        using assms(2) queue(2) by simp
    qed
  qed
qed

text \<open>
  C1: in every run of the system from its initial state, whatever the requests, the
  priorities and the clock readings, any two transitions of a batch from \<open>yet_to_start\<close>
  to \<open>triggered\<close> are at least \<open>RATE_LIMIT_MS = 5000\<close> apart. Discarding a stale job
  costs nothing: \<open>processQueue\<close> goes on with the rest of the queue in the same call, and
  a step that starts no batch leaves \<open>lastProcessingStartTime\<close> as it is.
\<close>

theorem C1_rate_limit:
  "RATE_LIMIT_MS = 5000
   \<and> (\<forall>i j. i < j \<and> j < length (admissionTimes uuidv4 evs initialState)
         \<longrightarrow> RATE_LIMIT_MS \<le> admissionTimes uuidv4 evs initialState ! j
                               - admissionTimes uuidv4 evs initialState ! i)
   \<and> (jobQueue s \<noteq> [] \<and> RATE_LIMIT_MS \<le> now - lastProcessingStartTime s
        \<and> fst (dequeue (jobQueue s)) = Some jb \<and> stale s jb
      \<longrightarrow> processQueue now s = processQueue now (s\<lparr>jobQueue := snd (dequeue (jobQueue s))\<rparr>))
   \<and> (started (run uuidv4 evs initialState) (step uuidv4 now ev (run uuidv4 evs initialState)) = []
      \<longrightarrow> lastProcessingStartTime (step uuidv4 now ev (run uuidv4 evs initialState))
          = lastProcessingStartTime (run uuidv4 evs initialState))"
proof (intro conjI allI impI)
  show "RATE_LIMIT_MS = 5000" by (simp add: RATE_LIMIT_MS_def)
next
  fix i j
  assume "i < j \<and> j < length (admissionTimes uuidv4 evs initialState)"
  then show "RATE_LIMIT_MS \<le> admissionTimes uuidv4 evs initialState ! j
                               - admissionTimes uuidv4 evs initialState ! i"
    using spaced_nth [OF spaced_admissionTimes [of initialState uuidv4 evs], of i j] by simp
next
  assume "jobQueue s \<noteq> [] \<and> RATE_LIMIT_MS \<le> now - lastProcessingStartTime s
        \<and> fst (dequeue (jobQueue s)) = Some jb \<and> stale s jb"
  then show "processQueue now s = processQueue now (s\<lparr>jobQueue := snd (dequeue (jobQueue s))\<rparr>)"
    using processQueue_discards by blast
next
  assume "started (run uuidv4 evs initialState)
      (step uuidv4 now ev (run uuidv4 evs initialState)) = []"
  then show "lastProcessingStartTime (step uuidv4 now ev (run uuidv4 evs initialState))
          = lastProcessingStartTime (run uuidv4 evs initialState)"
    using step_without_start [OF wellFormed_reachable] by blast
qed


text \<open>A run for the examples: a request of four ids, the end of its first batch, the
  retry timer.\<close>

definition sampleRun :: "(int \<times> event) list" where
  "sampleRun =
     [(1700000000000, PostIngest \<lparr>body_ids = Some (JArr (numbers [1, 2, 3, 4])), body_priority = Some (JStr (utf16 ''MEDIUM''))\<rparr>),
      (1700000000400, BatchSettled 0),
      (1700000005000, TimerFired 0)]"

theorem C1_rate_limit_witness:
  "admissionTimes sampleUuid sampleRun initialState = [1700000000000, 1700000005000]
   \<and> RATE_LIMIT_MS \<le> admissionTimes sampleUuid sampleRun initialState ! 1
                       - admissionTimes sampleUuid sampleRun initialState ! 0"
proof -
  have ts: "admissionTimes sampleUuid sampleRun initialState = [1700000000000, 1700000005000]"
    by code_simp
  have "(0::nat) < 1 \<and> 1 < length (admissionTimes sampleUuid sampleRun initialState)"
    by (simp add: ts)
  with C1_rate_limit [of sampleUuid sampleRun] ts show ?thesis by blast
qed

section \<open>The status of a batch\<close>

text \<open>The moves of a batch status in one step, and the rank that orders them.\<close>

definition statusMove :: "status \<Rightarrow> status \<Rightarrow> bool" where
  "statusMove old new \<longleftrightarrow>
     new = old
     \<or> (old = yet_to_start \<and> new = triggered)
     \<or> (old = triggered \<and> (new = completed \<or> new = failed))"

fun statusRank :: "status \<Rightarrow> nat" where
  "statusRank yet_to_start = 0"
| "statusRank triggered = 1"
| "statusRank completed = 2"
| "statusRank failed = 2"

lemma statusMove_rank:
  "statusMove old new \<Longrightarrow>
     statusRank old \<le> statusRank new \<and> (statusRank old = 2 \<longrightarrow> new = old)"
  by (cases old; cases new) (auto simp: statusMove_def)

lemma step_statusMove:
  assumes "wellFormed s" and "a < length (batchObjects s)"
  shows "a < length (batchObjects (step uuidv4 now ev s))
       \<and> statusMove (status (batchObjects s ! a))
            (status (batchObjects (step uuidv4 now ev s) ! a))"
proof -
  from step_decompose [of uuidv4 now ev s] assms
  consider (same) "step uuidv4 now ev s = s"
    | (queue) pre where "prepared s pre" "step uuidv4 now ev s = processQueue now pre"
        "status (batchObjects pre ! a) = status (batchObjects s ! a)
         \<or> status (batchObjects s ! a) = triggered"
    by blast
  then show ?thesis
  proof cases
    case same
    then show ?thesis using assms(2) by (simp add: statusMove_def)
  next
    case queue
    define s' where "s' = processQueue now pre"
    have len: "a < length (batchObjects pre)"
      using queue(1) assms(2) by (simp add: prepared_def)
    have pre: "status (batchObjects pre ! a) = status (batchObjects s ! a)
        \<or> status (batchObjects s ! a) = triggered \<and> status (batchObjects pre ! a) = completed"
      using queue(1,3) assms(2) unfolding prepared_def by blast
    have "idles pre s' \<or> (\<exists>a0. admits now pre s' a0)"
      unfolding s'_def by (rule processQueue_outcome)
    then have "a < length (batchObjects s')
        \<and> (status (batchObjects s' ! a) = status (batchObjects pre ! a)
           \<or> status (batchObjects pre ! a) = yet_to_start
             \<and> status (batchObjects s' ! a) = triggered)"
      using len by (auto simp: idles_def admits_def status_update_nth split: if_splits)
    then show ?thesis
      using pre unfolding queue(2) s'_def [symmetric] statusMove_def by auto
  qed
qed

lemma run_status:
  assumes "wellFormed s" and "a < length (batchObjects s)"
  shows "a < length (batchObjects (run uuidv4 evs s))
       \<and> statusRank (status (batchObjects s ! a))
           \<le> statusRank (status (batchObjects (run uuidv4 evs s) ! a))
       \<and> (statusRank (status (batchObjects s ! a)) = 2
           \<longrightarrow> status (batchObjects (run uuidv4 evs s) ! a) = status (batchObjects s ! a))"
  using assms
proof (induction evs arbitrary: s)
  case Nil
  then show ?case by simp
next
  case (Cons e evs)
  obtain now ev where e: "e = (now, ev)" by (cases e)
  let ?s1 = "step uuidv4 now ev s"
  from step_statusMove [OF Cons.prems, of uuidv4 now ev]
  have a1: "a < length (batchObjects ?s1)"
    and mv: "statusMove (status (batchObjects s ! a)) (status (batchObjects ?s1 ! a))"
    by simp_all
  note r1 = statusMove_rank [OF mv]
  note IH = Cons.IH [OF wellFormed_step [OF Cons.prems(1)] a1]
  show ?case
    using IH r1 by (auto simp: e)
qed


text \<open>
  C7: for every batch and every step of a run, the status of the batch stays or moves
  from \<open>yet_to_start\<close> to \<open>triggered\<close> or from \<open>triggered\<close> to \<open>completed\<close> or
  \<open>failed\<close>; over any continuation of the run its rank never decreases, and once
  it is \<open>completed\<close> or \<open>failed\<close> it never changes again.
\<close>

theorem C7_status_never_regresses:
  assumes "a < length (batchObjects (run uuidv4 evs initialState))"
  shows "a < length (batchObjects (step uuidv4 now ev (run uuidv4 evs initialState)))
       \<and> statusMove (status (batchObjects (run uuidv4 evs initialState) ! a))
            (status (batchObjects (step uuidv4 now ev (run uuidv4 evs initialState)) ! a))
       \<and> a < length (batchObjects (run uuidv4 (evs @ evs') initialState))
       \<and> statusRank (status (batchObjects (run uuidv4 evs initialState) ! a))
           \<le> statusRank (status (batchObjects (run uuidv4 (evs @ evs') initialState) ! a))
       \<and> (status (batchObjects (run uuidv4 evs initialState) ! a) = completed
            \<or> status (batchObjects (run uuidv4 evs initialState) ! a) = failed
           \<longrightarrow> status (batchObjects (run uuidv4 (evs @ evs') initialState) ! a)
               = status (batchObjects (run uuidv4 evs initialState) ! a))"
proof -
  note wf = wellFormed_reachable [of uuidv4 evs]
  from step_statusMove [OF wf assms, of uuidv4 now ev]
    run_status [OF wf assms, of uuidv4 evs']
  show ?thesis by (auto simp: run_append)
qed

theorem C7_status_never_regresses_witness:
  "status (batchObjects (run sampleUuid (take 1 sampleRun) initialState) ! 0) = triggered
   \<and> status (batchObjects
        (step sampleUuid 1700000000400 (BatchSettled 0)
           (run sampleUuid (take 1 sampleRun) initialState)) ! 0) = completed
   \<and> statusMove triggered completed
   \<and> status (batchObjects (run sampleUuid (take 1 sampleRun @ drop 1 sampleRun) initialState) ! 0)
       = completed"
proof -
  have h: "0 < length (batchObjects (run sampleUuid (take 1 sampleRun) initialState))"
    by code_simp
  have st: "status (batchObjects (run sampleUuid (take 1 sampleRun) initialState) ! 0) = triggered"
    "status (batchObjects
        (step sampleUuid 1700000000400 (BatchSettled 0)
           (run sampleUuid (take 1 sampleRun) initialState)) ! 0) = completed"
    "status (batchObjects (run sampleUuid (take 1 sampleRun @ drop 1 sampleRun) initialState) ! 0)
       = completed"
    by code_simp+
  from C7_status_never_regresses [OF h, of 1700000000400 "BatchSettled 0" "drop 1 sampleRun"] st
  show ?thesis by simp
qed

section \<open>The execution simulator\<close>

text \<open>A simulated call never rejects, and a batch whose ids all have a string form is
  \<open>completed\<close> when its processing ends.\<close>

lemma simulateApiCall_resolves: "\<exists>v d. simulateApiCall i = Resolved v d"
  by (simp add: simulateApiCall_def)

lemma processQueue_keeps_completed:
  assumes "status (batchObjects pre ! a) = completed" and "a < length (batchObjects pre)"
  shows "status (batchObjects (processQueue now pre) ! a) = completed"
proof -
  define s' where "s' = processQueue now pre"
  have "idles pre s' \<or> (\<exists>a0. admits now pre s' a0)"
    unfolding s'_def by (rule processQueue_outcome)
  then have "status (batchObjects s' ! a) = completed"
    using assms by (auto simp: idles_def admits_def status_update_nth)
  then show ?thesis by (simp only: s'_def)
qed

lemma settle_completes:
  assumes "a \<in> set (inFlight s)" and "a < length (batchObjects s)"
    and "list_all printable (ids (batchObjects s ! a))"
  shows "status (batchObjects (step uuidv4 now (BatchSettled a) s) ! a) = completed"
proof -
  have "status (batchObjects (settled a s) ! a) = completed"
    "a < length (batchObjects (settled a s))"
    using assms(2,3) by (simp_all add: settled_objects)
  from processQueue_keeps_completed [OF this]
  show ?thesis using assms(1) by (simp add: onBatchSettled_def)
qed

text \<open>
  A batch that is \<open>triggered\<close> with no promise pending stays so: \<open>processQueue\<close> writes
  the status of a \<open>yet_to_start\<close> batch only, and a promise settles for a batch in
  flight only.
\<close>

definition stuck :: "nat \<Rightarrow> state \<Rightarrow> bool" where
  "stuck a s \<longleftrightarrow>
     a < length (batchObjects s) \<and> status (batchObjects s ! a) = triggered
     \<and> a \<notin> set (inFlight s)"

lemma stuck_processQueue:
  assumes "stuck a pre"
  shows "stuck a (processQueue now pre)"
proof -
  define s' where "s' = processQueue now pre"
  have "idles pre s' \<or> (\<exists>a0. admits now pre s' a0)"
    unfolding s'_def by (rule processQueue_outcome)
  then have "stuck a s'"
  proof
    assume "idles pre s'"
    then show ?thesis using assms by (simp add: idles_def stuck_def)
  next
    assume "\<exists>a0. admits now pre s' a0"
    then obtain a0 where ad: "admits now pre s' a0" ..
    then have "a0 \<noteq> a" using assms by (auto simp: admits_def stuck_def)
    then show ?thesis using ad assms by (simp add: admits_def stuck_def)
  qed
  then show ?thesis by (simp only: s'_def)
qed

lemma stuck_step:
  assumes "stuck a s"
  shows "stuck a (step uuidv4 now ev s)"
proof (cases ev)
  case (PostIngest b)
  show ?thesis
  proof (cases "\<exists>items prio. validBody b items prio")
    case True
    then obtain items prio where v: "validBody b items prio" by blast
    have "stuck a (accepted uuidv4 now items prio s)"
      using assms by (simp add: stuck_def accepted_def Let_def nth_append)
    then show ?thesis
      by (simp add: PostIngest handleIngestRequest_accepted [OF v] stuck_processQueue)
  next
    case False
    then show ?thesis using assms by (simp add: PostIngest handleIngestRequest_rejected(1))
  qed
next
  case (GetStatus ingId)
  then show ?thesis using assms by simp
next
  case (TimerFired h)
  have "stuck a (s\<lparr>pendingTimers := filter (\<lambda>p. fst p \<noteq> h) (pendingTimers s)\<rparr>)"
    using assms by (simp add: stuck_def)
  then show ?thesis
    using assms by (simp add: TimerFired onTimer_def stuck_processQueue)
next
  case (BatchSettled x)
  show ?thesis
  proof (cases "x \<in> set (inFlight s)")
    case True
    then have "x \<noteq> a" using assms by (auto simp: stuck_def)
    then have "stuck a (settled x s)"
      using assms by (auto simp: stuck_def settled_objects dest: notin_set_remove1)
    then show ?thesis
      using True by (simp add: BatchSettled onBatchSettled_def stuck_processQueue)
  next
    case False
    then show ?thesis using assms by (simp add: BatchSettled onBatchSettled_def)
  qed
qed

lemma stuck_run: "stuck a s \<Longrightarrow> stuck a (run uuidv4 evs s)"
proof (induction evs arbitrary: s)
  case Nil
  then show ?case by simp
next
  case (Cons e evs)
  obtain now ev where e: "e = (now, ev)" by (cases e)
  show ?case using Cons.IH [OF stuck_step [OF Cons.prems]] by (simp add: e)
qed

text \<open>
  A request the controller accepts: \<open>ids\<close> is a non-empty array, its one element an object
  with an own property \<open>toString\<close>. The run: the request arrives, \<open>processQueue\<close>
  starts the batch, the promise of \<open>processSingleBatch\<close> rejects and the \<open>catch\<close>
  callback runs.
\<close>

definition unprintableBody :: body where
  "unprintableBody =
     \<lparr>body_ids = Some (JArr [JObj [(utf16 ''toString'', JNum 1)]]),
      body_priority = Some (JStr (utf16 ''HIGH''))\<rparr>"

definition unprintableRun :: "(int \<times> event) list" where
  "unprintableRun =
     [(1700000000000, PostIngest unprintableBody), (1700000000000, BatchSettled 0)]"

lemma unprintableRun_stuck: "stuck 0 (run sampleUuid unprintableRun initialState)"
  unfolding stuck_def by code_simp

text \<open>
  C10 at an id with no string form: the request is accepted with 202 and its batch
  started; \<open>batch.ids.join\<close> throws before the \<open>try\<close> block, the promise rejects, and
  the batch is \<open>triggered\<close> with nothing in flight. Whatever events follow, it is
  \<open>triggered\<close> still: it never reaches \<open>completed\<close> (nor \<open>failed\<close>).
\<close>

theorem C10_unprintable_id_never_completes:
  "fst (handleIngestRequest sampleUuid 1700000000000 unprintableBody initialState)
     = Json202 ''id-''
   \<and> processSingleBatch
        (batchObjects (run sampleUuid (take 1 unprintableRun) initialState) ! 0)
       = Thrown TypeError
   \<and> inFlight (run sampleUuid unprintableRun initialState) = []
   \<and> status (batchObjects (run sampleUuid (unprintableRun @ evs) initialState) ! 0)
       = triggered"
proof -
  have "stuck 0 (run sampleUuid (unprintableRun @ evs) initialState)"
    unfolding run_append by (rule stuck_run) (rule unprintableRun_stuck)
  then have "status (batchObjects (run sampleUuid (unprintableRun @ evs) initialState) ! 0)
      = triggered"
    by (simp add: stuck_def)
  moreover have "fst (handleIngestRequest sampleUuid 1700000000000 unprintableBody initialState)
      = Json202 ''id-''"
    by code_simp
  moreover have "processSingleBatch
        (batchObjects (run sampleUuid (take 1 unprintableRun) initialState) ! 0)
       = Thrown TypeError"
    by code_simp
  moreover have "inFlight (run sampleUuid unprintableRun initialState) = []"
    by code_simp
  ultimately show ?thesis by simp
qed

section \<open>The heap order of the queue\<close>

text \<open>The array is a binary min-heap on \<open>getJobPriorityValue\<close>: every element but the root
  has a key at least the key of its parent, at index \<open>(i - 1) div 2\<close>.\<close>

definition heapOrdered :: "job list \<Rightarrow> bool" where
  "heapOrdered h \<longleftrightarrow>
     (\<forall>i. 0 < i \<and> i < length h
        \<longrightarrow> getJobPriorityValue (h ! ((i - 1) div 2)) \<le> getJobPriorityValue (h ! i))"

text \<open>The order up to the node a sift is at: \<open>_siftUp\<close> may have the node below its parent's
  key, \<open>_siftDown\<close> may have it above its children's; around the node the order holds
  between its parent and its children.\<close>

definition orderedExceptUp :: "job list \<Rightarrow> nat \<Rightarrow> bool" where
  "orderedExceptUp h n \<longleftrightarrow>
     (\<forall>i. 0 < i \<and> i < length h \<and> i \<noteq> n
        \<longrightarrow> getJobPriorityValue (h ! ((i - 1) div 2)) \<le> getJobPriorityValue (h ! i))
     \<and> (\<forall>i. 0 < i \<and> i < length h \<and> (i - 1) div 2 = n \<and> 0 < n
        \<longrightarrow> getJobPriorityValue (h ! ((n - 1) div 2)) \<le> getJobPriorityValue (h ! i))"

definition orderedExceptDown :: "job list \<Rightarrow> nat \<Rightarrow> bool" where
  "orderedExceptDown h n \<longleftrightarrow>
     (\<forall>i. 0 < i \<and> i < length h \<and> (i - 1) div 2 \<noteq> n
        \<longrightarrow> getJobPriorityValue (h ! ((i - 1) div 2)) \<le> getJobPriorityValue (h ! i))
     \<and> (\<forall>i. 0 < i \<and> i < length h \<and> (i - 1) div 2 = n \<and> 0 < n
        \<longrightarrow> getJobPriorityValue (h ! ((n - 1) div 2)) \<le> getJobPriorityValue (h ! i))"

lemma parent_less: "0 < i \<Longrightarrow> (i - 1) div 2 < (i::nat)"
  by simp

lemma heapOrdered_root:
  assumes "heapOrdered h" and "i < length h"
  shows "getJobPriorityValue (h ! 0) \<le> getJobPriorityValue (h ! i)"
  using assms(2)
proof (induction i rule: less_induct)
  case (less i)
  show ?case
  proof (cases "i = 0")
    case True
    then show ?thesis by simp
  next
    case False
    then have p: "(i - 1) div 2 < i" by simp
    then have "getJobPriorityValue (h ! 0) \<le> getJobPriorityValue (h ! ((i - 1) div 2))"
      using less by simp
    also have "\<dots> \<le> getJobPriorityValue (h ! i)"
      using assms(1) False less.prems by (simp add: heapOrdered_def)
    finally show ?thesis .
  qed
qed

lemma heapOrdered_min:
  assumes "heapOrdered h" and "x \<in> set h"
  shows "getJobPriorityValue (h ! 0) \<le> getJobPriorityValue x"
  using assms heapOrdered_root by (auto simp: in_set_conv_nth)

lemma siftUpFrom_ordered:
  assumes "n < length h" and "orderedExceptUp h n"
  shows "heapOrdered (siftUpFrom h n)"
  using assms
proof (induction h n rule: siftUpFrom.induct)
  case (1 heap nodeIdx)
  let ?p = "(nodeIdx - 1) div 2"
  let ?k = "\<lambda>i. getJobPriorityValue (heap ! i)"
  note ex = "1.prems"(2) [unfolded orderedExceptUp_def]
  show ?case
  proof (cases "0 < nodeIdx")
    case False
    then have "heapOrdered heap" using ex by (auto simp: heapOrdered_def)
    then show ?thesis using False by (subst siftUpFrom.simps) simp
  next
    case pos: True
    then have p: "?p < nodeIdx" by simp
    show ?thesis
    proof (cases "?k nodeIdx < ?k ?p")
      case False
      have "heapOrdered heap"
        unfolding heapOrdered_def
      proof (intro allI impI)
        fix i assume i: "0 < i \<and> i < length heap"
        show "?k ((i - 1) div 2) \<le> ?k i"
        proof (cases "i = nodeIdx")
          case True
          then show ?thesis using False by simp
        next
          case False
          then show ?thesis using ex i by blast
        qed
      qed
      then show ?thesis using pos False by (subst siftUpFrom.simps) simp
    next
      case less: True
      let ?h' = "heap[nodeIdx := heap ! ?p, ?p := heap ! nodeIdx]"
      let ?k' = "\<lambda>i. getJobPriorityValue (?h' ! i)"
      have len: "length ?h' = length heap" by simp
      have n: "nodeIdx < length heap" by (rule "1.prems"(1))
      have at: "?k' i = (if i = ?p then ?k nodeIdx else if i = nodeIdx then ?k ?p else ?k i)"
        if "i < length heap" for i
        using that n p by (simp add: nth_list_update)
      have "orderedExceptUp ?h' ?p"
        unfolding orderedExceptUp_def len
      proof (intro conjI allI impI)
        fix i assume i: "0 < i \<and> i < length heap \<and> i \<noteq> ?p"
        then have pi: "(i - 1) div 2 < length heap" "(i - 1) div 2 < i" by auto
        show "?k' ((i - 1) div 2) \<le> ?k' i"
        proof (cases "i = nodeIdx")
          case True
          then show ?thesis using less i n p by (simp add: at)
        next
          case inode: False
          have ki: "?k' i = ?k i" using i inode by (simp add: at)
          show ?thesis
          proof (cases "(i - 1) div 2 = nodeIdx")
            case True
            then have "?k ?p \<le> ?k i" using ex i pos by blast
            then show ?thesis using True n p ki by (simp add: at)
          next
            case notn: False
            show ?thesis
            proof (cases "(i - 1) div 2 = ?p")
              case True
              have "?k ?p \<le> ?k i" using ex i inode True by metis
              then have "?k nodeIdx \<le> ?k i" using less by simp
              then show ?thesis using True pi ki by (simp add: at)
            next
              case False
              have "?k ((i - 1) div 2) \<le> ?k i" using ex i inode by blast
              then show ?thesis using False notn pi ki by (simp add: at)
            qed
          qed
        qed
      next
        fix i assume i: "0 < i \<and> i < length heap \<and> (i - 1) div 2 = ?p \<and> 0 < ?p"
        then have i0: "0 < i" and il: "i < length heap" and ipar: "(i - 1) div 2 = ?p"
          and p0: "0 < ?p"
          by blast+
        have ip: "i \<noteq> ?p" using parent_less [OF i0] ipar by linarith
        have pp: "(?p - 1) div 2 < ?p" using p0 by (rule parent_less)
        have pl: "?p < length heap" using p n by linarith
        have kpp: "?k' ((?p - 1) div 2) = ?k ((?p - 1) div 2)"
          using at [of "(?p - 1) div 2"] pp p pl by simp
        have "?p \<noteq> nodeIdx" using p by simp
        then have ppp: "?k ((?p - 1) div 2) \<le> ?k ?p"
          using ex p0 pl by blast
        show "?k' ((?p - 1) div 2) \<le> ?k' i"
        proof (cases "i = nodeIdx")
          case True
          then show ?thesis using ppp kpp il ip by (simp add: at)
        next
          case False
          then have "?k ?p \<le> ?k i" using ex i0 il ipar by metis
          then show ?thesis using ppp kpp il ip False by (simp add: at)
        qed
      qed
      moreover have "?p < length ?h'" using p n by simp
      ultimately have "heapOrdered (siftUpFrom ?h' ?p)"
        using "1.IH" [OF pos less] by blast
      then show ?thesis using pos less by (subst siftUpFrom.simps) simp
    qed
  qed
qed


lemma parent_eq_iff:
  "0 < i \<Longrightarrow> (i - 1) div 2 = n \<longleftrightarrow> i = 2 * n + 1 \<or> i = 2 * n + (2::nat)"
  by presburger

lemma smallestChildIdx_None:
  "smallestChildIdx h n = None \<Longrightarrow> length h \<le> 2 * n + 1"
  by (auto simp: smallestChildIdx_def Let_def split: if_splits)

lemma smallestChildIdx_child:
  assumes "smallestChildIdx h n = Some c"
  shows "0 < c" and "(c - 1) div 2 = n"
proof -
  from assms have c: "c = 2 * n + 1 \<or> c = 2 * n + 2"
    by (auto simp: smallestChildIdx_def Let_def split: if_splits)
  then show "0 < c" by auto
  then show "(c - 1) div 2 = n" using c parent_eq_iff [of c n] by blast
qed

lemma smallestChildIdx_least:
  assumes "smallestChildIdx h n = Some c" and "0 < i" and "i < length h"
    and "(i - 1) div 2 = n"
  shows "getJobPriorityValue (h ! c) \<le> getJobPriorityValue (h ! i)"
proof -
  have i: "i = 2 * n + 1 \<or> i = 2 * n + 2"
    using parent_eq_iff [OF assms(2), of n] assms(4) by blast
  show ?thesis
    using assms(1,3) i
    by (auto simp: smallestChildIdx_def Let_def split: if_splits)
qed

lemma siftDownFrom_ordered:
  assumes "orderedExceptDown h n"
  shows "heapOrdered (siftDownFrom h n)"
  using assms
proof (induction h n rule: siftDownFrom.induct)
  case (1 heap nodeIdx)
  let ?k = "\<lambda>i. getJobPriorityValue (heap ! i)"
  note ex = "1.prems" [unfolded orderedExceptDown_def]
  show ?case
  proof (cases "smallestChildIdx heap nodeIdx")
    case None
    have "heapOrdered heap"
      unfolding heapOrdered_def
    proof (intro allI impI)
      fix i assume i: "0 < i \<and> i < length heap"
      then have "(i - 1) div 2 \<noteq> nodeIdx"
        using smallestChildIdx_None [OF None] parent_eq_iff [of i nodeIdx] by linarith
      then show "?k ((i - 1) div 2) \<le> ?k i" using ex i by blast
    qed
    then show ?thesis using None by (subst siftDownFrom.simps) simp
  next
    case (Some c)
    note cb = smallestChildIdx_Some [OF Some]
    then have c0: "0 < c" and cl: "c < length heap" and nc: "nodeIdx < c" by auto
    have cpar: "(c - 1) div 2 = nodeIdx"
      using Some by (rule smallestChildIdx_child(2))
    note least = smallestChildIdx_least [OF Some]
    show ?thesis
    proof (cases "?k nodeIdx \<le> ?k c")
      case True
      have "heapOrdered heap"
        unfolding heapOrdered_def
      proof (intro allI impI)
        fix i assume i: "0 < i \<and> i < length heap"
        show "?k ((i - 1) div 2) \<le> ?k i"
        proof (cases "(i - 1) div 2 = nodeIdx")
          case par: True
          have "?k c \<le> ?k i" using least i par by blast
          then show ?thesis using True par by simp
        next
          case False
          then show ?thesis using ex i by blast
        qed
      qed
      then show ?thesis using Some True by (subst siftDownFrom.simps) simp
    next
      case False
      then have gt: "?k c < ?k nodeIdx" by simp
      let ?h' = "heap[nodeIdx := heap ! c, c := heap ! nodeIdx]"
      let ?k' = "\<lambda>i. getJobPriorityValue (?h' ! i)"
      have len: "length ?h' = length heap" by simp
      have nl: "nodeIdx < length heap" using nc cl by simp
      have at: "?k' i = (if i = c then ?k nodeIdx else if i = nodeIdx then ?k c else ?k i)"
        if "i < length heap" for i
        using that nl nc by (simp add: nth_list_update)
      have "orderedExceptDown ?h' c"
        unfolding orderedExceptDown_def len
      proof (intro conjI allI impI)
        fix i assume "0 < i \<and> i < length heap \<and> (i - 1) div 2 \<noteq> c"
        then have i0: "0 < i" and il: "i < length heap" and ipar: "(i - 1) div 2 \<noteq> c"
          by blast+
        have pl: "(i - 1) div 2 < length heap" using parent_less [OF i0] il by simp
        show "?k' ((i - 1) div 2) \<le> ?k' i"
        proof (cases "(i - 1) div 2 = nodeIdx")
          case par: True
          have "?k c \<le> ?k i" using least i0 il par by blast
          moreover have "i \<noteq> nodeIdx" using parent_less [OF i0] par by simp
          ultimately show ?thesis using par il nl gt by (simp add: at)
        next
          case npar: False
          have old: "?k ((i - 1) div 2) \<le> ?k i" using ex i0 il npar by blast
          have "i \<noteq> c" using cpar npar by auto
          show ?thesis
          proof (cases "i = nodeIdx")
            case True
            then have n0: "0 < nodeIdx" using i0 by simp
            have "?k ((nodeIdx - 1) div 2) \<le> ?k c"
              using ex c0 cl cpar n0 by blast
            then show ?thesis using True pl il ipar npar \<open>i \<noteq> c\<close> by (simp add: at)
          next
            case False
            then show ?thesis using old pl il ipar npar \<open>i \<noteq> c\<close> by (simp add: at)
          qed
        qed
      next
        fix i assume "0 < i \<and> i < length heap \<and> (i - 1) div 2 = c \<and> 0 < c"
        then have i0: "0 < i" and il: "i < length heap" and ipar: "(i - 1) div 2 = c"
          by blast+
        have ic: "c < i" using parent_less [OF i0] ipar by simp
        then have ine: "i \<noteq> c" "i \<noteq> nodeIdx" using nc by simp_all
        have "(i - 1) div 2 \<noteq> nodeIdx" using ipar nc by simp
        then have "?k c \<le> ?k i" using ex i0 il ipar by metis
        then show "?k' ((c - 1) div 2) \<le> ?k' i"
          using cpar nl il ine nc by (simp add: at)
      qed
      then have "heapOrdered (siftDownFrom ?h' c)"
        using "1.IH" [OF Some False] by blast
      then show ?thesis using Some False by (subst siftDownFrom.simps) simp
    qed
  qed
qed

lemma mset_siftUpFrom: "n < length h \<Longrightarrow> mset (siftUpFrom h n) = mset h"
proof (induction h n rule: siftUpFrom.induct)
  case (1 heap nodeIdx)
  show ?case
  proof (cases "0 < nodeIdx \<and> getJobPriorityValue (heap ! nodeIdx)
              < getJobPriorityValue (heap ! ((nodeIdx - 1) div 2))")
    case False
    then show ?thesis by (subst siftUpFrom.simps) auto
  next
    case True
    let ?p = "(nodeIdx - 1) div 2"
    have p: "?p < length heap" using True "1.prems" parent_less [of nodeIdx] by linarith
    have "mset (heap[nodeIdx := heap ! ?p, ?p := heap ! nodeIdx]) = mset heap"
      using p "1.prems" by (simp add: mset_swap)
    moreover have "mset (siftUpFrom (heap[nodeIdx := heap ! ?p, ?p := heap ! nodeIdx]) ?p)
        = mset (heap[nodeIdx := heap ! ?p, ?p := heap ! nodeIdx])"
      using True p by (intro "1.IH") simp_all
    ultimately show ?thesis using True by (subst siftUpFrom.simps) simp
  qed
qed

lemma mset_enqueue: "mset (enqueue h j) = add_mset j (mset h)"
  by (simp add: enqueue_def siftUp_def mset_siftUpFrom)

lemma set_enqueue: "set (enqueue h j) = insert j (set h)"
  using mset_enqueue [of h j] by (metis set_mset_add_mset_insert set_mset_mset)

lemma heapOrdered_enqueue:
  assumes "heapOrdered h"
  shows "heapOrdered (enqueue h j)"
proof -
  have "orderedExceptUp (h @ [j]) (length h)"
    unfolding orderedExceptUp_def
  proof (intro conjI allI impI)
    fix i assume "0 < i \<and> i < length (h @ [j]) \<and> i \<noteq> length h"
    then have i: "0 < i" "i < length h" by auto
    then have "(i - 1) div 2 < length h" using parent_less [of i] by linarith
    then show "getJobPriorityValue ((h @ [j]) ! ((i - 1) div 2))
        \<le> getJobPriorityValue ((h @ [j]) ! i)"
      using assms i by (simp add: nth_append heapOrdered_def)
  next
    fix i assume "0 < i \<and> i < length (h @ [j]) \<and> (i - 1) div 2 = length h \<and> 0 < length h"
    then have "0 < i" "i \<le> length h" "(i - 1) div 2 = length h" by auto
    then have False using parent_less [of i] by linarith
    then show "getJobPriorityValue ((h @ [j]) ! ((length h - 1) div 2))
        \<le> getJobPriorityValue ((h @ [j]) ! i)" ..
  qed
  then show ?thesis
    by (simp add: enqueue_def siftUp_def siftUpFrom_ordered)
qed

lemma heapOrdered_dequeue:
  assumes "heapOrdered h"
  shows "heapOrdered (snd (dequeue h))"
proof (cases "h = [] \<or> butlast h = []")
  case True
  then show ?thesis by (auto simp: dequeue_def heapOrdered_def)
next
  case False
  let ?h1 = "(butlast h)[0 := last h]"
  have "orderedExceptDown ?h1 0"
    unfolding orderedExceptDown_def
  proof (intro conjI allI impI)
    fix i assume "0 < i \<and> i < length ?h1 \<and> (i - 1) div 2 \<noteq> 0"
    then have i: "0 < i" "i < length h - 1" "(i - 1) div 2 \<noteq> 0" by auto
    then have p: "(i - 1) div 2 < length h - 1" using parent_less [of i] by linarith
    have "getJobPriorityValue (h ! ((i - 1) div 2)) \<le> getJobPriorityValue (h ! i)"
      using assms i by (simp add: heapOrdered_def)
    then show "getJobPriorityValue (?h1 ! ((i - 1) div 2)) \<le> getJobPriorityValue (?h1 ! i)"
      using i p by (simp add: nth_butlast)
  qed simp
  then show ?thesis
    using False by (simp add: dequeue_def siftDown_def siftDownFrom_ordered)
qed

section \<open>The scalar key and the composite key\<close>

lemma pow2_powi: "pow2 e = 2 powi e"
  by (simp add: pow2_def power_int_def inverse_eq_divide power_one_over)

lemma pow2_pos: "0 < pow2 e"
  by (simp add: pow2_powi)

lemma pow2_mono: "e \<le> e' \<Longrightarrow> pow2 e \<le> pow2 e'"
  by (simp add: pow2_powi power_int_increasing)

lemma pow2_Suc: "pow2 (e + 1) = 2 * pow2 e"
  by (simp add: pow2_powi power_int_add)

lemma pow2_pred: "pow2 (e - 1) = pow2 e / 2"
  by (simp add: pow2_powi power_int_diff)

lemma floorLog2_less: "0 < x \<Longrightarrow> x < pow2 k \<Longrightarrow> floorLog2 x < k"
proof (induction x arbitrary: k rule: floorLog2.induct)
  case (1 x)
  show ?case
  proof (cases "x < 1")
    case True
    have "2 * x < pow2 (k + 1)" using "1.prems" by (simp add: pow2_Suc)
    then have "floorLog2 (2 * x) < k + 1"
      using "1.IH"(1) [of "k + 1"] "1.prems" True by simp
    then show ?thesis using "1.prems" True by (subst floorLog2.simps) simp
  next
    case False
    show ?thesis
    proof (cases "2 \<le> x")
      case True
      have "x / 2 < pow2 (k - 1)" using "1.prems" by (simp add: pow2_pred)
      then have "floorLog2 (x / 2) < k - 1"
        using "1.IH"(2) [of "k - 1"] "1.prems" True False by simp
      then show ?thesis using "1.prems" True False by (subst floorLog2.simps) simp
    next
      case lt2: False
      have "0 < k"
      proof (rule ccontr)
        assume "\<not> 0 < k"
        then have "pow2 k \<le> pow2 0" by (intro pow2_mono) simp
        then show False using "1.prems" False by (simp add: pow2_def)
      qed
      then show ?thesis using "1.prems" False lt2 by (subst floorLog2.simps) simp
    qed
  qed
qed

lemma roundTiesToEven_error: "\<bar>of_int (roundTiesToEven r) - r\<bar> \<le> 1 / 2"
proof -
  define d where "d = r - of_int \<lfloor>r\<rfloor>"
  have d: "0 \<le> d" "d < 1" unfolding d_def by linarith+
  have val: "of_int (roundTiesToEven r) - r = - d \<or> of_int (roundTiesToEven r) - r = 1 - d"
    by (auto simp: roundTiesToEven_def Let_def d_def)
  have "\<bar>of_int (roundTiesToEven r) - r\<bar> \<le> 1 / 2" if "d < 1 / 2"
  proof -
    have "of_int (roundTiesToEven r) - r = - d"
      using that by (simp add: roundTiesToEven_def Let_def d_def)
    then show ?thesis using that d by simp
  qed
  moreover have "\<bar>of_int (roundTiesToEven r) - r\<bar> \<le> 1 / 2" if "1 / 2 < d"
  proof -
    have "of_int (roundTiesToEven r) - r = 1 - d"
      using that by (simp add: roundTiesToEven_def Let_def d_def)
    then show ?thesis using that d by simp
  qed
  moreover have "\<bar>of_int (roundTiesToEven r) - r\<bar> \<le> 1 / 2" if "d = 1 / 2"
    using val that by auto
  ultimately show ?thesis by fastforce
qed

lemma binary64_error:
  assumes "0 < x" and "x < pow2 k"
  shows "\<bar>binary64 x - x\<bar> \<le> pow2 (k - 54)"
proof -
  define u where "u = pow2 (floorLog2 \<bar>x\<bar> - 52)"
  have u: "0 < u" by (simp add: u_def pow2_pos)
  have "floorLog2 \<bar>x\<bar> < k" using assms floorLog2_less by simp
  then have "u \<le> pow2 (k - 53)" unfolding u_def by (intro pow2_mono) simp
  then have half: "u / 2 \<le> pow2 (k - 54)"
    using pow2_pred [of "k - 53"] by simp
  have b: "binary64 x = of_int (roundTiesToEven (x / u)) * u"
    using assms(1) by (simp add: binary64_def u_def Let_def)
  have "binary64 x - x = (of_int (roundTiesToEven (x / u)) - x / u) * u"
    using u by (simp add: b field_simps)
  then have "\<bar>binary64 x - x\<bar> = \<bar>of_int (roundTiesToEven (x / u)) - x / u\<bar> * u"
    using u by (simp add: abs_mult)
  also have "\<dots> \<le> (1 / 2) * u"
    using roundTiesToEven_error [of "x / u"] u by (intro mult_right_mono) simp_all
  finally show ?thesis using half by simp
qed

text \<open>The key without rounding, and the composite key of the specification with its
  order: the rank first, then the time.\<close>

definition exactKey :: "job \<Rightarrow> rat" where
  "exactKey j = of_int (priorityMap (priority j)) + of_int (createdAt j) / 10 ^ 14"

definition compositeLess :: "job \<Rightarrow> job \<Rightarrow> bool" where
  "compositeLess a b \<longleftrightarrow>
     priorityMap (priority a) < priorityMap (priority b)
     \<or> (priorityMap (priority a) = priorityMap (priority b) \<and> createdAt a < createdAt b)"

definition typicalTime :: "int \<Rightarrow> bool" where
  "typicalTime t \<longleftrightarrow> 0 \<le> t \<and> t < 10 ^ 14"

lemma priorityMap_range: "1 \<le> priorityMap p \<and> priorityMap p \<le> 3"
  by (cases p) auto

lemma key_error:
  assumes "typicalTime (createdAt j)"
  shows "\<bar>getJobPriorityValue j - exactKey j\<bar> \<le> 9 * pow2 (- 54)"
proof -
  define q :: rat where "q = of_int (createdAt j) / 10 ^ 14"
  define r :: rat where "r = of_int (priorityMap (priority j))"
  have q: "0 \<le> q" "q < 1"
    using assms by (simp_all add: q_def typicalTime_def)
  have r: "1 \<le> r" "r \<le> 3"
    using priorityMap_range [of "priority j"] by (simp_all add: r_def)
  have e1: "\<bar>binary64 q - q\<bar> \<le> pow2 (- 54)"
  proof (cases "q = 0")
    case True
    then show ?thesis using pow2_pos [of "- 54"] by (simp add: binary64_def)
  next
    case False
    then have "0 < q" using q by simp
    moreover have "q < pow2 0" using q by (simp add: pow2_def)
    ultimately show ?thesis using binary64_error [of q 0] by simp
  qed
  have p54: "pow2 (- 54) < 1" by (simp add: pow2_def)
  have p3: "pow2 3 = 8" by (simp add: pow2_def)
  have bq: "q - pow2 (- 54) \<le> binary64 q" "binary64 q \<le> q + pow2 (- 54)"
    using e1 by (auto simp: abs_le_iff)
  have s: "0 < r + binary64 q" "r + binary64 q < pow2 3"
    unfolding p3 using bq q r p54 by linarith+
  have e2: "\<bar>binary64 (r + binary64 q) - (r + binary64 q)\<bar> \<le> pow2 (- 51)"
    using binary64_error [OF s] by simp
  have "pow2 (- 51) = 8 * pow2 (- 54)" by (simp add: pow2_def)
  then have "\<bar>binary64 (r + binary64 q) - (r + q)\<bar> \<le> 9 * pow2 (- 54)"
    using e1 e2 by linarith
  then show ?thesis
    by (simp add: getJobPriorityValue_def exactKey_def q_def r_def)
qed

lemma of_int_succ_le: "x + 1 \<le> y \<Longrightarrow> (of_int x :: rat) + 1 \<le> of_int y"
proof -
  assume "x + 1 \<le> y"
  then have "(of_int (x + 1) :: rat) \<le> of_int y" by (simp only: of_int_le_iff)
  then show ?thesis by simp
qed

lemma exactKey_gap:
  assumes "typicalTime (createdAt a)" and "typicalTime (createdAt b)" and "compositeLess a b"
  shows "exactKey a + 1 / 10 ^ 14 \<le> exactKey b"
proof -
  from assms(3) consider
      (rank) "priorityMap (priority a) + 1 \<le> priorityMap (priority b)"
    | (time) "priorityMap (priority a) = priorityMap (priority b)"
        "createdAt a + 1 \<le> createdAt b"
    by (auto simp: compositeLess_def)
  then show ?thesis
  proof cases
    case rank
    then have "(of_int (priorityMap (priority a)) :: rat) + 1 \<le> of_int (priorityMap (priority b))"
      by (rule of_int_succ_le)
    moreover have "createdAt a + 1 \<le> 10 ^ 14"
      using assms(1) by (simp add: typicalTime_def)
    then have "(of_int (createdAt a) :: rat) + 1 \<le> of_int (10 ^ 14)"
      by (rule of_int_succ_le)
    then have "(of_int (createdAt a) :: rat) + 1 \<le> 10 ^ 14" by simp
    moreover have "(0 :: rat) \<le> of_int (createdAt b)"
      using assms(2) by (simp add: typicalTime_def)
    ultimately show ?thesis
      by (simp add: exactKey_def field_simps)
  next
    case time
    then have "(of_int (createdAt a) :: rat) + 1 \<le> of_int (createdAt b)"
      by (intro of_int_succ_le)
    then show ?thesis using time(1) by (simp add: exactKey_def field_simps)
  qed
qed

lemma key_less:
  assumes "typicalTime (createdAt a)" and "typicalTime (createdAt b)" and "compositeLess a b"
  shows "getJobPriorityValue a < getJobPriorityValue b"
proof -
  have small: "18 * pow2 (- 54) < 1 / 10 ^ 14" by (simp add: pow2_def)
  from key_error [OF assms(1)] key_error [OF assms(2)] exactKey_gap [OF assms] small
  show ?thesis by linarith
qed

lemma key_less_iff:
  assumes "typicalTime (createdAt a)" and "typicalTime (createdAt b)"
  shows "getJobPriorityValue a < getJobPriorityValue b \<longleftrightarrow> compositeLess a b"
proof
  assume "compositeLess a b"
  then show "getJobPriorityValue a < getJobPriorityValue b"
    using assms key_less by blast
next
  assume lt: "getJobPriorityValue a < getJobPriorityValue b"
  show "compositeLess a b"
  proof (rule ccontr)
    assume n: "\<not> compositeLess a b"
    show False
    proof (cases "compositeLess b a")
      case True
      then show ?thesis using key_less [OF assms(2,1)] lt by simp
    next
      case False
      with n have "priorityMap (priority a) = priorityMap (priority b)"
        "createdAt a = createdAt b"
        by (auto simp: compositeLess_def)
      then have "getJobPriorityValue a = getJobPriorityValue b"
        by (simp add: getJobPriorityValue_def)
      then show ?thesis using lt by simp
    qed
  qed
qed

section \<open>The order of dequeues\<close>

text \<open>A sequence of operations on a queue that starts empty.\<close>

datatype queue_op = Enqueue job | Dequeue

fun applyOp :: "job list \<Rightarrow> queue_op \<Rightarrow> job list" where
  "applyOp h (Enqueue j) = enqueue h j"
| "applyOp h Dequeue = snd (dequeue h)"

definition runQueue :: "queue_op list \<Rightarrow> job list" where
  "runQueue ops = foldl applyOp [] ops"

lemma heapOrdered_applyOp: "heapOrdered h \<Longrightarrow> heapOrdered (applyOp h op)"
  by (cases op) (simp_all add: heapOrdered_enqueue heapOrdered_dequeue)

lemma heapOrdered_foldl: "heapOrdered h \<Longrightarrow> heapOrdered (foldl applyOp h ops)"
  by (induction ops arbitrary: h) (simp_all add: heapOrdered_applyOp)

lemma heapOrdered_runQueue: "heapOrdered (runQueue ops)"
  unfolding runQueue_def by (rule heapOrdered_foldl) (simp add: heapOrdered_def)

lemma set_foldl_applyOp:
  "set (foldl applyOp h ops) \<subseteq> set h \<union> {j. Enqueue j \<in> set ops}"
proof (induction ops arbitrary: h)
  case Nil
  then show ?case by simp
next
  case (Cons op ops)
  have "set (applyOp h op) \<subseteq> set h \<union> {j. op = Enqueue j}"
    using set_dequeue_subset [of h] by (cases op) (auto simp: set_enqueue)
  then show ?case using Cons.IH [of "applyOp h op"] by auto
qed

lemma set_runQueue: "set (runQueue ops) \<subseteq> {j. Enqueue j \<in> set ops}"
  using set_foldl_applyOp [of "[]" ops] by (simp add: runQueue_def)

text \<open>Two jobs for the counterexample: a \<open>HIGH\<close> one created in the year 8307 and a
  \<open>MEDIUM\<close> one created at the epoch.\<close>

definition lateHighJob :: job where
  "lateHighJob =
     \<lparr>ingestionId = ''r1'', batchId = ''b1'', priority = HIGH, createdAt = 200000000000000\<rparr>"

definition epochMediumJob :: job where
  "epochMediumJob =
     \<lparr>ingestionId = ''r2'', batchId = ''b2'', priority = MEDIUM, createdAt = 0\<rparr>"

text \<open>
  C5, as stated, at a time value of \<open>2e14\<close> or more: the key of the \<open>HIGH\<close> job is
  \<open>1 + 2 = 3\<close>, above the key \<open>2\<close> of the \<open>MEDIUM\<close> job, so the \<open>MEDIUM\<close> job is
  dequeued first and the \<open>HIGH\<close> job, whose composite key is strictly smaller and which
  is in the queue at that time, after it.
\<close>

theorem C5_late_timestamp_counterexample:
  "compositeLess lateHighJob epochMediumJob
   \<and> lateHighJob \<in> set (runQueue [Enqueue lateHighJob, Enqueue epochMediumJob])
   \<and> fst (dequeue (runQueue [Enqueue lateHighJob, Enqueue epochMediumJob]))
       = Some epochMediumJob
   \<and> fst (dequeue (runQueue [Enqueue lateHighJob, Enqueue epochMediumJob, Dequeue]))
       = Some lateHighJob"
  by code_simp

text \<open>
  C5 (amended): for every sequence of enqueue and dequeue operations whose jobs have a
  time value in \<open>[0, 1e14)\<close> (a date from 1970 to the year 5138), a dequeue removes one
  job of the queue, and no job in the queue at that moment has a strictly smaller
  composite key (rank of the priority, with \<open>HIGH\<close> = 1 < \<open>MEDIUM\<close> = 2 < \<open>LOW\<close> = 3,
  then \<open>createdAt\<close>); so no job is dequeued after a job with a strictly larger key that
  was in the queue with it.
\<close>

theorem C5_dequeue_order:
  assumes "\<forall>j. Enqueue j \<in> set ops \<longrightarrow> typicalTime (createdAt j)"
    and "fst (dequeue (runQueue ops)) = Some j"
  shows "j \<in> set (runQueue ops)
       \<and> add_mset j (mset (snd (dequeue (runQueue ops)))) = mset (runQueue ops)
       \<and> (\<forall>x \<in> set (runQueue ops). \<not> compositeLess x j)"
proof -
  let ?h = "runQueue ops"
  have ne: "?h \<noteq> []" using assms(2) dequeue_None [of ?h] by auto
  then have j: "j = ?h ! 0" using mset_dequeue(2) [of ?h] assms(2) by simp
  have typical: "typicalTime (createdAt x)" if "x \<in> set ?h" for x
    using that set_runQueue [of ops] assms(1) by blast
  have jin: "j \<in> set ?h" using ne j by simp
  have "\<not> compositeLess x j" if "x \<in> set ?h" for x
  proof
    assume "compositeLess x j"
    then have "getJobPriorityValue x < getJobPriorityValue j"
      using key_less typical that jin by blast
    moreover have "getJobPriorityValue j \<le> getJobPriorityValue x"
      unfolding j using heapOrdered_runQueue that by (rule heapOrdered_min)
    ultimately show False by simp
  qed
  then show ?thesis
    using jin mset_dequeue(1) [OF ne] j by auto
qed

definition lowJob :: job where
  "lowJob =
     \<lparr>ingestionId = ''r1'', batchId = ''b1'', priority = LOW, createdAt = 1700000000000\<rparr>"

definition highJob :: job where
  "highJob =
     \<lparr>ingestionId = ''r2'', batchId = ''b2'', priority = HIGH, createdAt = 1700000000050\<rparr>"

theorem C5_dequeue_order_witness:
  "fst (dequeue (runQueue [Enqueue lowJob, Enqueue highJob])) = Some highJob
   \<and> lowJob \<in> set (runQueue [Enqueue lowJob, Enqueue highJob])
   \<and> \<not> compositeLess lowJob highJob"
proof -
  have h1: "\<forall>j. Enqueue j \<in> set [Enqueue lowJob, Enqueue highJob]
      \<longrightarrow> typicalTime (createdAt j)"
    by (auto simp: lowJob_def highJob_def typicalTime_def)
  have h2: "fst (dequeue (runQueue [Enqueue lowJob, Enqueue highJob])) = Some highJob"
    by code_simp
  have h3: "lowJob \<in> set (runQueue [Enqueue lowJob, Enqueue highJob])"
    by code_simp
  from C5_dequeue_order [OF h1 h2] h2 h3 show ?thesis by blast
qed

section \<open>First in, first out within a priority\<close>



text \<open>Once a batch of the later of two requests of one priority has left
  \<open>yet_to_start\<close>, every batch of the earlier one has.\<close>

definition fifo :: "state \<Rightarrow> bool" where
  "fifo s \<longleftrightarrow>
     (\<forall>id1 id2 r1 r2 a1 a2.
        ingestionStore s id1 = Some r1 \<and> ingestionStore s id2 = Some r2
        \<and> req_priority r1 = req_priority r2 \<and> req_createdAt r1 < req_createdAt r2
        \<and> a2 \<in> set (batches r2) \<and> status (batchObjects s ! a2) \<noteq> yet_to_start
        \<and> a1 \<in> set (batches r1)
        \<longrightarrow> status (batchObjects s ! a1) \<noteq> yet_to_start)"

























lemma fifo_jobQueue [simp]: "fifo (s\<lparr>jobQueue := q\<rparr>) = fifo s"
  by (simp add: fifo_def)











subsection \<open>Runs with two requests of one priority\<close>

















end
